theory Spec2Isabelle
  imports Main
begin

section \<open>Data model of the graph package\<close>

text \<open>
  The Go package keeps graphs, nest trees, nests, nodes and edges as heap objects that
  point to each other. The embedding uses an explicit store: one arena (a list) per
  struct type, a pointer is the index of the object in its arena, and a pointer that may
  be \<^verbatim>\<open>nil\<close> is a \<open>ref option\<close>. Allocation appends to the arena, so the address of
  a new object is the length of the arena before the allocation. Go is garbage collected:
  a non-nil pointer always designates a live object, hence the theorems below speak about
  references that lie inside their arena.
\<close>

type_synonym ref = nat

text \<open>A run-time panic of Go (the program stops), as opposed to a returned \<^verbatim>\<open>error\<close>.\<close>

datatype panic =
    NilDereference
  | IndexOutOfRange
  | MakesliceLenOutOfRange
  | ExplicitPanic

text \<open>The values built by \<^verbatim>\<open>errors.New\<close>, one constructor per family of messages.\<close>

datatype error =
    AttrInvalid
  | AttrForeign
  | AttrNotSet
  | AttrExhausted
  | SrcNodeNil
  | DstNodeNil
  | SrcNodeForeign
  | DstNodeForeign
  | NestForeign

record strAttrVal =
  isSet :: bool
  data :: string

record graphStrAttr =
  attrNum :: int
  isValid :: bool
  graph_Attr :: "ref option"

type_synonym GraphStrAttr = graphStrAttr
type_synonym NodeStrAttr = graphStrAttr

record AttrSpec =
  GraphStrAttrNum :: int
  NodeStrAttrNum :: int
  NestStrAttrNum :: int

record Node =
  firstIncomingEdge :: "ref option"
  firstOutcomingEdge :: "ref option"
  id_Node :: int
  nest_Node :: "ref option"
  nextNodeInNest :: "ref option"
  prevNodeInNest :: "ref option"
  graph_Node :: "ref option"
  strAttrs_Node :: "strAttrVal list"

record Edge =
  id_Edge :: int
  graph_Edge :: "ref option"
  srcNode :: "ref option"
  dstNode :: "ref option"
  nextOutcomingEdge :: "ref option"
  prevOutcomingEdge :: "ref option"
  nextIncomingEdge :: "ref option"
  prevIncomingEdge :: "ref option"
  nextEdgeInNest :: "ref option"
  prevEdgeInNest :: "ref option"
  nest_Edge :: "ref option"

record Graph =
  nestTree_Graph :: "ref option"
  nodeCount :: int
  edgeCount :: int
  attrSpec :: AttrSpec
  graphStrAttrAllocMap :: "bool list"
  nodeStrAttrAllocMap :: "bool list"
  strAttrs_Graph :: "strAttrVal list"

record nestTreeStrAttr =
  attr_num :: int
  is_valid :: bool
  nestTree_Attr :: "ref option"

type_synonym NestStrAttr = nestTreeStrAttr

record Nest =
  id_Nest :: int
  nestTree_Nest :: "ref option"
  level :: int
  parentNest :: "ref option"
  firstChildNest :: "ref option"
  lastChildNest :: "ref option"
  nextSiblingNest :: "ref option"
  prevSiblingNest :: "ref option"
  firstNode :: "ref option"
  lastNode :: "ref option"
  firstEdge :: "ref option"
  strAttrs_Nest :: "strAttrVal list"

record NestTree =
  baseGraph :: "ref option"
  nestCount :: int
  rootNest :: "ref option"
  nestStrAttrAllocMap :: "bool list"

record heap =
  graphs :: "Graph list"
  nestTrees :: "NestTree list"
  nests :: "Nest list"
  nodes :: "Node list"
  edges :: "Edge list"

definition empty_heap :: heap where
  "empty_heap = \<lparr>graphs = [], nestTrees = [], nests = [], nodes = [], edges = []\<rparr>"

text \<open>Writing through a pointer: the object at address \<open>r\<close> is replaced by \<open>f\<close> of it.\<close>

definition upd_graph :: "ref \<Rightarrow> (Graph \<Rightarrow> Graph) \<Rightarrow> heap \<Rightarrow> heap" where
  "upd_graph r f s = s\<lparr>graphs := (graphs s)[r := f (graphs s ! r)]\<rparr>"

definition upd_nestTree :: "ref \<Rightarrow> (NestTree \<Rightarrow> NestTree) \<Rightarrow> heap \<Rightarrow> heap" where
  "upd_nestTree r f s = s\<lparr>nestTrees := (nestTrees s)[r := f (nestTrees s ! r)]\<rparr>"

definition upd_nest :: "ref \<Rightarrow> (Nest \<Rightarrow> Nest) \<Rightarrow> heap \<Rightarrow> heap" where
  "upd_nest r f s = s\<lparr>nests := (nests s)[r := f (nests s ! r)]\<rparr>"

definition upd_node :: "ref \<Rightarrow> (Node \<Rightarrow> Node) \<Rightarrow> heap \<Rightarrow> heap" where
  "upd_node r f s = s\<lparr>nodes := (nodes s)[r := f (nodes s ! r)]\<rparr>"

definition upd_edge :: "ref \<Rightarrow> (Edge \<Rightarrow> Edge) \<Rightarrow> heap \<Rightarrow> heap" where
  "upd_edge r f s = s\<lparr>edges := (edges s)[r := f (edges s ! r)]\<rparr>"

text \<open>The zero value of \<^verbatim>\<open>strAttrVal\<close>, with which \<^verbatim>\<open>make\<close> fills a fresh slice.\<close>

definition strAttrVal_zero :: strAttrVal where
  "strAttrVal_zero = \<lparr>isSet = False, data = []\<rparr>"

definition graph_str_attr_invalid :: GraphStrAttr where
  "graph_str_attr_invalid = \<lparr>attrNum = - 1, isValid = False, graph_Attr = None\<rparr>"

definition node_str_attr_invalid :: NodeStrAttr where
  "node_str_attr_invalid = \<lparr>attrNum = - 1, isValid = False, graph_Attr = None\<rparr>"

definition nest_str_attr_invalid :: NestStrAttr where
  "nest_str_attr_invalid = \<lparr>attr_num = - 1, is_valid = False, nestTree_Attr = None\<rparr>"

definition NT_ROOT_NEST_LEVEL :: int where
  "NT_ROOT_NEST_LEVEL = 0"

text \<open>
  Indexing a slice of attribute values: Go panics when the index is negative or not
  below the length.
\<close>

definition in_range :: "int \<Rightarrow> 'a list \<Rightarrow> bool" where
  "in_range i xs \<longleftrightarrow> 0 \<le> i \<and> i < int (length xs)"

section \<open>nest\_tree.go\<close>

subsection \<open>Traversal of the nest tree\<close>

text \<open>
  The loop of \<^verbatim>\<open>GetNextNest\<close> that climbs to the first ancestor with a next sibling.
  Nothing in the loop itself bounds the climb (a cyclic parent chain would make it run
  forever), so the loop is a partial function: \<open>None\<close> is "does not return".
\<close>

partial_function (option) GetNextNest_climb :: "heap \<Rightarrow> ref option \<Rightarrow> ref option option" where
  "GetNextNest_climb s nest =
     (case nest of
        None \<Rightarrow> Some None
      | Some r \<Rightarrow>
          if nextSiblingNest (nests s ! r) = None
          then GetNextNest_climb s (parentNest (nests s ! r))
          else Some (nextSiblingNest (nests s ! r)))"

declare GetNextNest_climb.simps [code]

definition GetNextNest :: "heap \<Rightarrow> ref \<Rightarrow> ref option option" where
  "GetNextNest s nest =
     (case firstChildNest (nests s ! nest) of
        Some next_nest \<Rightarrow> Some (Some next_nest)
      | None \<Rightarrow>
         (case nextSiblingNest (nests s ! nest) of
            Some next_nest \<Rightarrow> Some (Some next_nest)
          | None \<Rightarrow> GetNextNest_climb s (parentNest (nests s ! nest))))"

text \<open>The loop of \<^verbatim>\<open>GetPrevNest\<close> that descends along last children.\<close>

partial_function (option) GetPrevNest_descend :: "heap \<Rightarrow> ref \<Rightarrow> ref option" where
  "GetPrevNest_descend s prev_nest =
     (case lastChildNest (nests s ! prev_nest) of
        Some c \<Rightarrow> GetPrevNest_descend s c
      | None \<Rightarrow> Some prev_nest)"

declare GetPrevNest_descend.simps [code]

definition GetPrevNest :: "heap \<Rightarrow> ref \<Rightarrow> ref option option" where
  "GetPrevNest s nest =
     (case prevSiblingNest (nests s ! nest) of
        None \<Rightarrow> Some (parentNest (nests s ! nest))
      | Some prev_nest \<Rightarrow> map_option Some (GetPrevNest_descend s prev_nest))"

subsection \<open>String attributes of a nest\<close>

definition Nest_GetStrAttrVal :: "heap \<Rightarrow> ref \<Rightarrow> NestStrAttr \<Rightarrow> panic + (string \<times> error option)" where
  "Nest_GetStrAttrVal s nest attr =
     (if \<not> is_valid attr then Inr ([], Some AttrInvalid)
      else if nestTree_Attr attr \<noteq> nestTree_Nest (nests s ! nest) then Inr ([], Some AttrForeign)
      else if \<not> in_range (attr_num attr) (strAttrs_Nest (nests s ! nest)) then Inl IndexOutOfRange
      else if \<not> isSet (strAttrs_Nest (nests s ! nest) ! nat (attr_num attr)) then Inr ([], Some AttrNotSet)
      else Inr (data (strAttrs_Nest (nests s ! nest) ! nat (attr_num attr)), None))"

definition Nest_SetStrAttrVal :: "heap \<Rightarrow> ref \<Rightarrow> NestStrAttr \<Rightarrow> string \<Rightarrow> panic + (heap \<times> error option)" where
  "Nest_SetStrAttrVal s nest attr val =
     (if is_valid attr = False then Inr (s, Some AttrInvalid)
      else if nestTree_Attr attr \<noteq> nestTree_Nest (nests s ! nest) then Inr (s, Some AttrForeign)
      else if \<not> in_range (attr_num attr) (strAttrs_Nest (nests s ! nest)) then Inl IndexOutOfRange
      else
        let i = nat (attr_num attr);
            s1 = upd_nest nest (\<lambda>n. n\<lparr>strAttrs_Nest := (strAttrs_Nest n)[i := (strAttrs_Nest n ! i)\<lparr>isSet := True\<rparr>]\<rparr>) s;
            s2 = upd_nest nest (\<lambda>n. n\<lparr>strAttrs_Nest := (strAttrs_Nest n)[i := (strAttrs_Nest n ! i)\<lparr>data := val\<rparr>]\<rparr>) s1
        in Inr (s2, None))"

text \<open>
  In \<^verbatim>\<open>RemoveStrAttr\<close> the two checks build an error value with \<^verbatim>\<open>errors.New\<close> and drop
  it: there is no \<^verbatim>\<open>return\<close> in either branch, so neither check has an effect and control
  always reaches the indexed write.
\<close>

definition Nest_RemoveStrAttr :: "heap \<Rightarrow> ref \<Rightarrow> NestStrAttr \<Rightarrow> panic + (heap \<times> error option)" where
  "Nest_RemoveStrAttr s nest attr =
     (let dropped1 = (if \<not> is_valid attr then Some AttrInvalid else None);
          dropped2 = (if nestTree_Attr attr \<noteq> nestTree_Nest (nests s ! nest) then Some AttrForeign else None)
      in if \<not> in_range (attr_num attr) (strAttrs_Nest (nests s ! nest)) then Inl IndexOutOfRange
         else
           let i = nat (attr_num attr)
           in Inr (upd_nest nest (\<lambda>n. n\<lparr>strAttrs_Nest := (strAttrs_Nest n)[i := (strAttrs_Nest n ! i)\<lparr>isSet := False\<rparr>]\<rparr>) s, None))"

definition Nest_IsStrAttrSet :: "heap \<Rightarrow> ref \<Rightarrow> NestStrAttr \<Rightarrow> panic + (bool \<times> error option)" where
  "Nest_IsStrAttrSet s nest attr =
     (if \<not> is_valid attr then Inr (False, Some AttrInvalid)
      else if nestTree_Attr attr \<noteq> nestTree_Nest (nests s ! nest) then Inr (False, Some AttrForeign)
      else if \<not> in_range (attr_num attr) (strAttrs_Nest (nests s ! nest)) then Inl IndexOutOfRange
      else Inr (isSet (strAttrs_Nest (nests s ! nest) ! nat (attr_num attr)), None))"

subsection \<open>Membership lists of a nest\<close>

definition addNode :: "heap \<Rightarrow> ref \<Rightarrow> ref \<Rightarrow> panic + heap" where
  "addNode s nest node =
     (case nestTree_Nest (nests s ! nest) of
        None \<Rightarrow> Inl ExplicitPanic
      | Some nt \<Rightarrow>
          if baseGraph (nestTrees s ! nt) \<noteq> graph_Node (nodes s ! node) then Inl ExplicitPanic
          else
            let first_node = firstNode (nests s ! nest);
                s1 = (case first_node of
                        Some f \<Rightarrow> upd_node f (\<lambda>n. n\<lparr>prevNodeInNest := Some node\<rparr>) s
                      | None \<Rightarrow> upd_nest nest (\<lambda>n. n\<lparr>lastNode := Some node\<rparr>) s);
                s2 = upd_node node (\<lambda>n. n\<lparr>nextNodeInNest := first_node\<rparr>) s1;
                s3 = upd_nest nest (\<lambda>n. n\<lparr>firstNode := Some node\<rparr>) s2
            in Inr s3)"

definition removeNode :: "heap \<Rightarrow> ref \<Rightarrow> ref \<Rightarrow> panic + heap" where
  "removeNode s nest node =
     (case nestTree_Nest (nests s ! nest) of
        None \<Rightarrow> Inl ExplicitPanic
      | Some nt \<Rightarrow>
          if baseGraph (nestTrees s ! nt) \<noteq> graph_Node (nodes s ! node) then Inl ExplicitPanic
          else
            let next_node = nextNodeInNest (nodes s ! node);
                prev_node = prevNodeInNest (nodes s ! node);
                s1 = (case next_node of
                        Some nx \<Rightarrow> upd_node nx (\<lambda>n. n\<lparr>prevNodeInNest := prev_node\<rparr>) s
                      | None \<Rightarrow> upd_nest nest (\<lambda>n. n\<lparr>lastNode := prev_node\<rparr>) s);
                s2 = (case prev_node of
                        Some pv \<Rightarrow> upd_node pv (\<lambda>n. n\<lparr>nextNodeInNest := next_node\<rparr>) s1
                      | None \<Rightarrow> upd_nest nest (\<lambda>n. n\<lparr>firstNode := next_node\<rparr>) s1);
                s3 = upd_node node (\<lambda>n. n\<lparr>nextNodeInNest := None\<rparr>) s2;
                s4 = upd_node node (\<lambda>n. n\<lparr>prevNodeInNest := None\<rparr>) s3
            in Inr s4)"

definition addEdge :: "heap \<Rightarrow> ref \<Rightarrow> ref \<Rightarrow> panic + heap" where
  "addEdge s nest edge =
     (case nestTree_Nest (nests s ! nest) of
        None \<Rightarrow> Inl ExplicitPanic
      | Some nt \<Rightarrow>
          if baseGraph (nestTrees s ! nt) \<noteq> graph_Edge (edges s ! edge) then Inl ExplicitPanic
          else
            let first_edge = firstEdge (nests s ! nest);
                s1 = (case first_edge of
                        Some f \<Rightarrow> upd_edge f (\<lambda>e. e\<lparr>prevEdgeInNest := Some edge\<rparr>) s
                      | None \<Rightarrow> s);
                s2 = upd_edge edge (\<lambda>e. e\<lparr>nextEdgeInNest := first_edge\<rparr>) s1;
                s3 = upd_nest nest (\<lambda>n. n\<lparr>firstEdge := Some edge\<rparr>) s2
            in Inr s3)"

definition removeEdge :: "heap \<Rightarrow> ref \<Rightarrow> ref \<Rightarrow> panic + heap" where
  "removeEdge s nest edge =
     (case nestTree_Nest (nests s ! nest) of
        None \<Rightarrow> Inl ExplicitPanic
      | Some nt \<Rightarrow>
          if baseGraph (nestTrees s ! nt) \<noteq> graph_Edge (edges s ! edge) then Inl ExplicitPanic
          else
            let next_edge = nextEdgeInNest (edges s ! edge);
                prev_edge = prevEdgeInNest (edges s ! edge);
                s1 = (case next_edge of
                        Some nx \<Rightarrow> upd_edge nx (\<lambda>e. e\<lparr>prevEdgeInNest := prev_edge\<rparr>) s
                      | None \<Rightarrow> s);
                s2 = (case prev_edge of
                        Some pv \<Rightarrow> upd_edge pv (\<lambda>e. e\<lparr>nextEdgeInNest := next_edge\<rparr>) s1
                      | None \<Rightarrow> upd_nest nest (\<lambda>n. n\<lparr>firstEdge := next_edge\<rparr>) s1);
                s3 = upd_edge edge (\<lambda>e. e\<lparr>nextEdgeInNest := None\<rparr>) s2;
                s4 = upd_edge edge (\<lambda>e. e\<lparr>prevEdgeInNest := None\<rparr>) s3
            in Inr s4)"

subsection \<open>Creating the tree and its nests\<close>

text \<open>
  \<^verbatim>\<open>newNestTree\<close> builds the root nest without a \<^verbatim>\<open>strAttrs\<close> field, which leaves it
  \<^verbatim>\<open>nil\<close>: a slice of length 0.
\<close>

definition newNestTree :: "heap \<Rightarrow> ref option \<Rightarrow> panic + (heap \<times> ref)" where
  "newNestTree s base_graph =
     (case base_graph of
        None \<Rightarrow> Inl ExplicitPanic
      | Some g \<Rightarrow>
          if NestStrAttrNum (attrSpec (graphs s ! g)) < 0 then Inl MakesliceLenOutOfRange
          else
            let nt = length (nestTrees s);
                nt_p = \<lparr>baseGraph = Some g, nestCount = 0, rootNest = None,
                        nestStrAttrAllocMap =
                          replicate (nat (NestStrAttrNum (attrSpec (graphs s ! g)))) False\<rparr>;
                s1 = s\<lparr>nestTrees := nestTrees s @ [nt_p]\<rparr>;
                root = length (nests s1);
                root_nest_p = \<lparr>id_Nest = 0, nestTree_Nest = Some nt, level = NT_ROOT_NEST_LEVEL,
                        parentNest = None, firstChildNest = None, lastChildNest = None,
                        nextSiblingNest = None, prevSiblingNest = None, firstNode = None,
                        lastNode = None, firstEdge = None, strAttrs_Nest = []\<rparr>;
                s2 = s1\<lparr>nests := nests s1 @ [root_nest_p]\<rparr>;
                s3 = upd_nestTree nt (\<lambda>t. t\<lparr>nestCount := nestCount t + 1\<rparr>) s2;
                s4 = upd_nestTree nt (\<lambda>t. t\<lparr>rootNest := Some root\<rparr>) s3
            in Inr (s4, nt))"

definition NewNest :: "heap \<Rightarrow> ref \<Rightarrow> panic + (heap \<times> ref)" where
  "NewNest s nt =
     (case rootNest (nestTrees s ! nt) of
        None \<Rightarrow> Inl ExplicitPanic
      | Some root \<Rightarrow>
         (case baseGraph (nestTrees s ! nt) of
            None \<Rightarrow> Inl ExplicitPanic
          | Some g \<Rightarrow>
              if NestStrAttrNum (attrSpec (graphs s ! g)) < 0 then Inl MakesliceLenOutOfRange
              else
                let nest = length (nests s);
                    nest_p = \<lparr>id_Nest = nestCount (nestTrees s ! nt), nestTree_Nest = Some nt,
                        level = level (nests s ! root) + 1, parentNest = Some root,
                        firstChildNest = None, lastChildNest = None,
                        nextSiblingNest = firstChildNest (nests s ! root),
                        prevSiblingNest = None, firstNode = None, lastNode = None,
                        firstEdge = None,
                        strAttrs_Nest =
                          replicate (nat (NestStrAttrNum (attrSpec (graphs s ! g)))) strAttrVal_zero\<rparr>;
                    s1 = s\<lparr>nests := nests s @ [nest_p]\<rparr>;
                    s2 = (case firstChildNest (nests s1 ! root) of
                            Some sibling \<Rightarrow> upd_nest sibling (\<lambda>n. n\<lparr>prevSiblingNest := Some nest\<rparr>) s1
                          | None \<Rightarrow> upd_nest root (\<lambda>n. n\<lparr>lastChildNest := Some nest\<rparr>) s1);
                    s3 = upd_nest root (\<lambda>n. n\<lparr>firstChildNest := Some nest\<rparr>) s2;
                    s4 = upd_nestTree nt (\<lambda>t. t\<lparr>nestCount := nestCount t + 1\<rparr>) s3
                in Inr (s4, nest)))"

subsection \<open>Allocating and releasing nest attributes\<close>

text \<open>
  The scan \<^verbatim>\<open>for i := 0; i < len(m); i++\<close> over an allocation map, which stops at the
  first element that holds \<^verbatim>\<open>false\<close>. The three allocators of the package run this same
  loop on their own map.
\<close>

function alloc_scan :: "bool list \<Rightarrow> nat \<Rightarrow> nat option" where
  "alloc_scan m i =
     (if i < length m then (if m ! i = False then Some i else alloc_scan m (i + 1)) else None)"
  by pat_completeness auto
termination
  by (relation "measure (\<lambda>(m, i). length m - i)") auto

declare alloc_scan.simps [simp del]

definition NewNestStrAttr :: "heap \<Rightarrow> ref \<Rightarrow> heap \<times> NestStrAttr \<times> error option" where
  "NewNestStrAttr s nt =
     (case alloc_scan (nestStrAttrAllocMap (nestTrees s ! nt)) 0 of
        Some i \<Rightarrow>
          (upd_nestTree nt (\<lambda>t. t\<lparr>nestStrAttrAllocMap := (nestStrAttrAllocMap t)[i := True]\<rparr>) s,
           \<lparr>attr_num = int i, is_valid = True, nestTree_Attr = Some nt\<rparr>, None)
      | None \<Rightarrow> (s, nest_str_attr_invalid, Some AttrExhausted))"

text \<open>
  The sweep of \<^verbatim>\<open>ReleaseNestStrAttr\<close> over all nests, from the root along
  \<^verbatim>\<open>GetNextNest\<close>. The error result of \<^verbatim>\<open>RemoveStrAttr\<close> is ignored, a panic is not.
\<close>

partial_function (option) ReleaseNestStrAttr_sweep ::
    "heap \<Rightarrow> NestStrAttr \<Rightarrow> ref option \<Rightarrow> (panic + heap) option" where
  "ReleaseNestStrAttr_sweep s attr nest =
     (case nest of
        None \<Rightarrow> Some (Inr s)
      | Some r \<Rightarrow>
         (case Nest_RemoveStrAttr s r attr of
            Inl p \<Rightarrow> Some (Inl p)
          | Inr res \<Rightarrow>
              Option.bind (GetNextNest (fst res) r)
                (\<lambda>nx. ReleaseNestStrAttr_sweep (fst res) attr nx)))"

declare ReleaseNestStrAttr_sweep.simps [code]

definition ReleaseNestStrAttr ::
    "heap \<Rightarrow> ref \<Rightarrow> NestStrAttr \<Rightarrow> (panic + (heap \<times> NestStrAttr \<times> error option)) option" where
  "ReleaseNestStrAttr s nt attr =
     (if \<not> is_valid attr then Some (Inr (s, attr, Some AttrInvalid))
      else if nestTree_Attr attr \<noteq> Some nt then Some (Inr (s, attr, Some AttrForeign))
      else
        let attr_num = attr_num attr
        in (case ReleaseNestStrAttr_sweep s attr (rootNest (nestTrees s ! nt)) of
              None \<Rightarrow> None
            | Some (Inl p) \<Rightarrow> Some (Inl p)
            | Some (Inr s1) \<Rightarrow>
                if \<not> in_range attr_num (nestStrAttrAllocMap (nestTrees s1 ! nt))
                then Some (Inl IndexOutOfRange)
                else Some (Inr
                  (upd_nestTree nt
                     (\<lambda>t. t\<lparr>nestStrAttrAllocMap := (nestStrAttrAllocMap t)[nat attr_num := False]\<rparr>) s1,
                   nest_str_attr_invalid, None))))"

section \<open>graph.go\<close>

subsection \<open>Creating a graph\<close>

definition NewGraph :: "heap \<Rightarrow> AttrSpec \<Rightarrow> panic + (heap \<times> ref)" where
  "NewGraph s attr_spec =
     (if GraphStrAttrNum attr_spec < 0 \<or> NodeStrAttrNum attr_spec < 0
      then Inl MakesliceLenOutOfRange
      else
        let g = length (graphs s);
            graph_p = \<lparr>nestTree_Graph = None, nodeCount = 0, edgeCount = 0,
                attrSpec = attr_spec,
                graphStrAttrAllocMap = replicate (nat (GraphStrAttrNum attr_spec)) False,
                nodeStrAttrAllocMap = replicate (nat (NodeStrAttrNum attr_spec)) False,
                strAttrs_Graph = replicate (nat (GraphStrAttrNum attr_spec)) strAttrVal_zero\<rparr>;
            s1 = s\<lparr>graphs := graphs s @ [graph_p]\<rparr>
        in (case newNestTree s1 (Some g) of
              Inl p \<Rightarrow> Inl p
            | Inr (s2, nt) \<Rightarrow> Inr (upd_graph g (\<lambda>G. G\<lparr>nestTree_Graph := Some nt\<rparr>) s2, g)))"

subsection \<open>Iterating over all nodes of a graph\<close>

text \<open>
  The loop \<^verbatim>\<open>for nest != nil && nest.firstNode == nil { nest = nest.GetNextNest() }\<close>
  of \<^verbatim>\<open>GetFirstNode\<close> and \<^verbatim>\<open>GetNextNode\<close>, and its mirror image in \<^verbatim>\<open>GetPrevNode\<close>.
\<close>

partial_function (option) skip_nests_forward :: "heap \<Rightarrow> ref option \<Rightarrow> ref option option" where
  "skip_nests_forward s nest =
     (case nest of
        None \<Rightarrow> Some None
      | Some r \<Rightarrow>
          if firstNode (nests s ! r) = None
          then Option.bind (GetNextNest s r) (\<lambda>nx. skip_nests_forward s nx)
          else Some (Some r))"

declare skip_nests_forward.simps [code]

partial_function (option) skip_nests_backward :: "heap \<Rightarrow> ref option \<Rightarrow> ref option option" where
  "skip_nests_backward s nest =
     (case nest of
        None \<Rightarrow> Some None
      | Some r \<Rightarrow>
          if lastNode (nests s ! r) = None
          then Option.bind (GetPrevNest s r) (\<lambda>pv. skip_nests_backward s pv)
          else Some (Some r))"

declare skip_nests_backward.simps [code]

definition Graph_GetFirstNode :: "heap \<Rightarrow> ref \<Rightarrow> (panic + ref option) option" where
  "Graph_GetFirstNode s graph =
     (case nestTree_Graph (graphs s ! graph) of
        None \<Rightarrow> Some (Inl ExplicitPanic)
      | Some nt \<Rightarrow>
         (case rootNest (nestTrees s ! nt) of
            None \<Rightarrow> Some (Inl ExplicitPanic)
          | Some root \<Rightarrow>
             (case skip_nests_forward s (Some root) of
                None \<Rightarrow> None
              | Some None \<Rightarrow> Some (Inr None)
              | Some (Some nest) \<Rightarrow> Some (Inr (firstNode (nests s ! nest))))))"

definition GetNextNode :: "heap \<Rightarrow> ref \<Rightarrow> (panic + ref option) option" where
  "GetNextNode s node =
     (case nextNodeInNest (nodes s ! node) of
        Some nx \<Rightarrow> Some (Inr (Some nx))
      | None \<Rightarrow>
         (case nest_Node (nodes s ! node) of
            None \<Rightarrow> Some (Inl ExplicitPanic)
          | Some node_nest \<Rightarrow>
             (case Option.bind (GetNextNest s node_nest) (skip_nests_forward s) of
                None \<Rightarrow> None
              | Some None \<Rightarrow> Some (Inr None)
              | Some (Some nest) \<Rightarrow> Some (Inr (firstNode (nests s ! nest))))))"

definition GetPrevNode :: "heap \<Rightarrow> ref \<Rightarrow> (panic + ref option) option" where
  "GetPrevNode s node =
     (case prevNodeInNest (nodes s ! node) of
        Some pv \<Rightarrow> Some (Inr (Some pv))
      | None \<Rightarrow>
         (case nest_Node (nodes s ! node) of
            None \<Rightarrow> Some (Inl ExplicitPanic)
          | Some node_nest \<Rightarrow>
             (case Option.bind (GetPrevNest s node_nest) (skip_nests_backward s) of
                None \<Rightarrow> None
              | Some None \<Rightarrow> Some (Inr None)
              | Some (Some nest) \<Rightarrow> Some (Inr (lastNode (nests s ! nest))))))"

subsection \<open>String attributes of the graph as a whole\<close>

definition NewGraphStrAttr :: "heap \<Rightarrow> ref \<Rightarrow> heap \<times> GraphStrAttr \<times> error option" where
  "NewGraphStrAttr s graph =
     (case alloc_scan (graphStrAttrAllocMap (graphs s ! graph)) 0 of
        Some i \<Rightarrow>
          (upd_graph graph (\<lambda>G. G\<lparr>graphStrAttrAllocMap := (graphStrAttrAllocMap G)[i := True]\<rparr>) s,
           \<lparr>attrNum = int i, isValid = True, graph_Attr = Some graph\<rparr>, None)
      | None \<Rightarrow> (s, graph_str_attr_invalid, Some AttrExhausted))"

definition Graph_RemoveStrAttr :: "heap \<Rightarrow> ref \<Rightarrow> GraphStrAttr \<Rightarrow> panic + (heap \<times> error option)" where
  "Graph_RemoveStrAttr s graph attr =
     (let dropped1 = (if \<not> isValid attr then Some AttrInvalid else None);
          dropped2 = (if graph_Attr attr \<noteq> Some graph then Some AttrForeign else None)
      in if \<not> in_range (attrNum attr) (strAttrs_Graph (graphs s ! graph)) then Inl IndexOutOfRange
         else
           let i = nat (attrNum attr)
           in Inr (upd_graph graph (\<lambda>G. G\<lparr>strAttrs_Graph := (strAttrs_Graph G)[i := (strAttrs_Graph G ! i)\<lparr>isSet := False\<rparr>]\<rparr>) s, None))"

definition Graph_IsStrAttrSet :: "heap \<Rightarrow> ref \<Rightarrow> GraphStrAttr \<Rightarrow> panic + (bool \<times> error option)" where
  "Graph_IsStrAttrSet s graph attr =
     (if \<not> isValid attr then Inr (False, Some AttrInvalid)
      else if graph_Attr attr \<noteq> Some graph then Inr (False, Some AttrForeign)
      else if \<not> in_range (attrNum attr) (strAttrs_Graph (graphs s ! graph)) then Inl IndexOutOfRange
      else Inr (isSet (strAttrs_Graph (graphs s ! graph) ! nat (attrNum attr)), None))"

definition Graph_SetStrAttrVal :: "heap \<Rightarrow> ref \<Rightarrow> GraphStrAttr \<Rightarrow> string \<Rightarrow> panic + (heap \<times> error option)" where
  "Graph_SetStrAttrVal s graph attr val =
     (if isValid attr = False then Inr (s, Some AttrInvalid)
      else if graph_Attr attr \<noteq> Some graph then Inr (s, Some AttrForeign)
      else if \<not> in_range (attrNum attr) (strAttrs_Graph (graphs s ! graph)) then Inl IndexOutOfRange
      else
        let i = nat (attrNum attr);
            s1 = upd_graph graph (\<lambda>G. G\<lparr>strAttrs_Graph := (strAttrs_Graph G)[i := (strAttrs_Graph G ! i)\<lparr>isSet := True\<rparr>]\<rparr>) s;
            s2 = upd_graph graph (\<lambda>G. G\<lparr>strAttrs_Graph := (strAttrs_Graph G)[i := (strAttrs_Graph G ! i)\<lparr>data := val\<rparr>]\<rparr>) s1
        in Inr (s2, None))"

definition Graph_GetStrAttrVal :: "heap \<Rightarrow> ref \<Rightarrow> GraphStrAttr \<Rightarrow> panic + (string \<times> error option)" where
  "Graph_GetStrAttrVal s graph attr =
     (if \<not> isValid attr then Inr ([], Some AttrInvalid)
      else if graph_Attr attr \<noteq> Some graph then Inr ([], Some AttrForeign)
      else if \<not> in_range (attrNum attr) (strAttrs_Graph (graphs s ! graph)) then Inl IndexOutOfRange
      else if \<not> isSet (strAttrs_Graph (graphs s ! graph) ! nat (attrNum attr)) then Inr ([], Some AttrNotSet)
      else Inr (data (strAttrs_Graph (graphs s ! graph) ! nat (attrNum attr)), None))"

text \<open>
  \<^verbatim>\<open>ReleaseGraphStrAttr\<close> writes \<^verbatim>\<open>graph_str_attr_invalid\<close> through the handle pointer;
  the model returns the handle as it is after the call.
\<close>

definition ReleaseGraphStrAttr ::
    "heap \<Rightarrow> ref \<Rightarrow> GraphStrAttr \<Rightarrow> panic + (heap \<times> GraphStrAttr \<times> error option)" where
  "ReleaseGraphStrAttr s graph attr =
     (if \<not> isValid attr then Inr (s, attr, Some AttrInvalid)
      else if graph_Attr attr \<noteq> Some graph then Inr (s, attr, Some AttrForeign)
      else
        let attr_num = attrNum attr
        in (case Graph_RemoveStrAttr s graph attr of
              Inl p \<Rightarrow> Inl p
            | Inr (s1, ignored) \<Rightarrow>
                if \<not> in_range attr_num (graphStrAttrAllocMap (graphs s1 ! graph))
                then Inl IndexOutOfRange
                else Inr
                  (upd_graph graph
                     (\<lambda>G. G\<lparr>graphStrAttrAllocMap := (graphStrAttrAllocMap G)[nat attr_num := False]\<rparr>) s1,
                   graph_str_attr_invalid, None)))"

subsection \<open>String attributes of nodes\<close>

definition NewNodeStrAttr :: "heap \<Rightarrow> ref \<Rightarrow> heap \<times> NodeStrAttr \<times> error option" where
  "NewNodeStrAttr s graph =
     (case alloc_scan (nodeStrAttrAllocMap (graphs s ! graph)) 0 of
        Some i \<Rightarrow>
          (upd_graph graph (\<lambda>G. G\<lparr>nodeStrAttrAllocMap := (nodeStrAttrAllocMap G)[i := True]\<rparr>) s,
           \<lparr>attrNum = int i, isValid = True, graph_Attr = Some graph\<rparr>, None)
      | None \<Rightarrow> (s, node_str_attr_invalid, Some AttrExhausted))"

definition Node_SetStrAttrVal :: "heap \<Rightarrow> ref \<Rightarrow> NodeStrAttr \<Rightarrow> string \<Rightarrow> panic + (heap \<times> error option)" where
  "Node_SetStrAttrVal s node attr val =
     (if isValid attr = False then Inr (s, Some AttrInvalid)
      else if graph_Attr attr \<noteq> graph_Node (nodes s ! node) then Inr (s, Some AttrForeign)
      else if \<not> in_range (attrNum attr) (strAttrs_Node (nodes s ! node)) then Inl IndexOutOfRange
      else
        let i = nat (attrNum attr);
            s1 = upd_node node (\<lambda>n. n\<lparr>strAttrs_Node := (strAttrs_Node n)[i := (strAttrs_Node n ! i)\<lparr>isSet := True\<rparr>]\<rparr>) s;
            s2 = upd_node node (\<lambda>n. n\<lparr>strAttrs_Node := (strAttrs_Node n)[i := (strAttrs_Node n ! i)\<lparr>data := val\<rparr>]\<rparr>) s1
        in Inr (s2, None))"

definition Node_GetStrAttrVal :: "heap \<Rightarrow> ref \<Rightarrow> NodeStrAttr \<Rightarrow> panic + (string \<times> error option)" where
  "Node_GetStrAttrVal s node attr =
     (if \<not> isValid attr then Inr ([], Some AttrInvalid)
      else if graph_Attr attr \<noteq> graph_Node (nodes s ! node) then Inr ([], Some AttrForeign)
      else if \<not> in_range (attrNum attr) (strAttrs_Node (nodes s ! node)) then Inl IndexOutOfRange
      else if \<not> isSet (strAttrs_Node (nodes s ! node) ! nat (attrNum attr)) then Inr ([], Some AttrNotSet)
      else Inr (data (strAttrs_Node (nodes s ! node) ! nat (attrNum attr)), None))"

definition Node_RemoveStrAttr :: "heap \<Rightarrow> ref \<Rightarrow> NodeStrAttr \<Rightarrow> panic + (heap \<times> error option)" where
  "Node_RemoveStrAttr s node attr =
     (let dropped1 = (if \<not> isValid attr then Some AttrInvalid else None);
          dropped2 = (if graph_Attr attr \<noteq> graph_Node (nodes s ! node) then Some AttrForeign else None)
      in if \<not> in_range (attrNum attr) (strAttrs_Node (nodes s ! node)) then Inl IndexOutOfRange
         else
           let i = nat (attrNum attr)
           in Inr (upd_node node (\<lambda>n. n\<lparr>strAttrs_Node := (strAttrs_Node n)[i := (strAttrs_Node n ! i)\<lparr>isSet := False\<rparr>]\<rparr>) s, None))"

definition Node_IsStrAttrSet :: "heap \<Rightarrow> ref \<Rightarrow> NodeStrAttr \<Rightarrow> panic + (bool \<times> error option)" where
  "Node_IsStrAttrSet s node attr =
     (if \<not> isValid attr then Inr (False, Some AttrInvalid)
      else if graph_Attr attr \<noteq> graph_Node (nodes s ! node) then Inr (False, Some AttrForeign)
      else if \<not> in_range (attrNum attr) (strAttrs_Node (nodes s ! node)) then Inl IndexOutOfRange
      else Inr (isSet (strAttrs_Node (nodes s ! node) ! nat (attrNum attr)), None))"

text \<open>
  The sweep of \<^verbatim>\<open>ReleaseNodeStrAttr\<close> over all nodes of the graph, along
  \<^verbatim>\<open>GetNextNode\<close>.
\<close>

partial_function (option) ReleaseNodeStrAttr_sweep ::
    "heap \<Rightarrow> NodeStrAttr \<Rightarrow> ref option \<Rightarrow> (panic + heap) option" where
  "ReleaseNodeStrAttr_sweep s attr node =
     (case node of
        None \<Rightarrow> Some (Inr s)
      | Some r \<Rightarrow>
         (case Node_RemoveStrAttr s r attr of
            Inl p \<Rightarrow> Some (Inl p)
          | Inr res \<Rightarrow>
             Option.bind (GetNextNode (fst res) r)
               (\<lambda>nx. case nx of
                        Inl p \<Rightarrow> Some (Inl p)
                      | Inr nxt \<Rightarrow> ReleaseNodeStrAttr_sweep (fst res) attr nxt)))"

declare ReleaseNodeStrAttr_sweep.simps [code]

definition ReleaseNodeStrAttr ::
    "heap \<Rightarrow> ref \<Rightarrow> NodeStrAttr \<Rightarrow> (panic + (heap \<times> NodeStrAttr \<times> error option)) option" where
  "ReleaseNodeStrAttr s graph attr =
     (if \<not> isValid attr then Some (Inr (s, attr, Some AttrInvalid))
      else if graph_Attr attr \<noteq> Some graph then Some (Inr (s, attr, Some AttrForeign))
      else
        let attr_num = attrNum attr
        in (case Graph_GetFirstNode s graph of
              None \<Rightarrow> None
            | Some (Inl p) \<Rightarrow> Some (Inl p)
            | Some (Inr first) \<Rightarrow>
               (case ReleaseNodeStrAttr_sweep s attr first of
                  None \<Rightarrow> None
                | Some (Inl p) \<Rightarrow> Some (Inl p)
                | Some (Inr s1) \<Rightarrow>
                    if \<not> in_range attr_num (nodeStrAttrAllocMap (graphs s1 ! graph))
                    then Some (Inl IndexOutOfRange)
                    else Some (Inr
                      (upd_graph graph
                         (\<lambda>G. G\<lparr>nodeStrAttrAllocMap := (nodeStrAttrAllocMap G)[nat attr_num := False]\<rparr>) s1,
                       node_str_attr_invalid, None)))))"

subsection \<open>Creating nodes\<close>

text \<open>The allocation \<^verbatim>\<open>node_p := &Node{...}\<close> of \<^verbatim>\<open>NewNode\<close>, for a graph whose root nest is \<open>root\<close>.\<close>

definition NewNode_alloc :: "heap \<Rightarrow> ref \<Rightarrow> ref \<Rightarrow> heap" where
  "NewNode_alloc s graph root =
     s\<lparr>nodes := nodes s @
        [\<lparr>firstIncomingEdge = None, firstOutcomingEdge = None,
          id_Node = nodeCount (graphs s ! graph), nest_Node = Some root,
          nextNodeInNest = None, prevNodeInNest = None, graph_Node = Some graph,
          strAttrs_Node =
            replicate (nat (NodeStrAttrNum (attrSpec (graphs s ! graph)))) strAttrVal_zero\<rparr>]\<rparr>"

definition NewNode :: "heap \<Rightarrow> ref \<Rightarrow> panic + (heap \<times> ref)" where
  "NewNode s graph =
     (case nestTree_Graph (graphs s ! graph) of
        None \<Rightarrow> Inl ExplicitPanic
      | Some nt \<Rightarrow>
         (case rootNest (nestTrees s ! nt) of
            None \<Rightarrow> Inl ExplicitPanic
          | Some root \<Rightarrow>
              if NodeStrAttrNum (attrSpec (graphs s ! graph)) < 0 then Inl MakesliceLenOutOfRange
              else
                let node = length (nodes s);
                    s1 = NewNode_alloc s graph root
                in (case addNode s1 root node of
                      Inl p \<Rightarrow> Inl p
                    | Inr s2 \<Rightarrow>
                        Inr (upd_graph graph (\<lambda>G. G\<lparr>nodeCount := nodeCount G + 1\<rparr>) s2, node))))"

subsection \<open>Attribution of an edge to a nest\<close>

text \<open>
  The three loops of \<^verbatim>\<open>calcNestAndMoveToIt\<close>. Each follows parent pointers, and only
  the shape of the tree makes it stop, so each is a partial function.
\<close>

partial_function (option) calc_raise_src :: "heap \<Rightarrow> ref \<Rightarrow> ref \<Rightarrow> (panic + ref) option" where
  "calc_raise_src s src_nest dst_nest =
     (if level (nests s ! src_nest) > level (nests s ! dst_nest)
      then (case parentNest (nests s ! src_nest) of
              None \<Rightarrow> Some (Inl ExplicitPanic)
            | Some p \<Rightarrow> calc_raise_src s p dst_nest)
      else Some (Inr src_nest))"

declare calc_raise_src.simps [code]

partial_function (option) calc_raise_dst :: "heap \<Rightarrow> ref \<Rightarrow> ref \<Rightarrow> (panic + ref) option" where
  "calc_raise_dst s dst_nest src_nest =
     (if level (nests s ! dst_nest) > level (nests s ! src_nest)
      then (case parentNest (nests s ! dst_nest) of
              None \<Rightarrow> Some (Inl ExplicitPanic)
            | Some p \<Rightarrow> calc_raise_dst s p src_nest)
      else Some (Inr dst_nest))"

declare calc_raise_dst.simps [code]

partial_function (option) calc_raise_both :: "heap \<Rightarrow> ref \<Rightarrow> ref \<Rightarrow> (panic + ref) option" where
  "calc_raise_both s dst_nest src_nest =
     (if dst_nest \<noteq> src_nest
      then (case parentNest (nests s ! dst_nest) of
              None \<Rightarrow> Some (Inl ExplicitPanic)
            | Some d \<Rightarrow>
               (case parentNest (nests s ! src_nest) of
                  None \<Rightarrow> Some (Inl ExplicitPanic)
                | Some c \<Rightarrow> calc_raise_both s d c))
      else Some (Inr src_nest))"

declare calc_raise_both.simps [code]

text \<open>The search for the nest of an edge: the part of the method before it touches a list.\<close>

definition calc_nest :: "heap \<Rightarrow> ref \<Rightarrow> (panic + ref) option" where
  "calc_nest s edge =
     (case srcNode (edges s ! edge) of
        None \<Rightarrow> Some (Inl ExplicitPanic)
      | Some src_node \<Rightarrow>
     (case dstNode (edges s ! edge) of
        None \<Rightarrow> Some (Inl ExplicitPanic)
      | Some dst_node \<Rightarrow>
          if graph_Node (nodes s ! src_node) \<noteq> graph_Node (nodes s ! dst_node)
          then Some (Inl ExplicitPanic)
          else if graph_Edge (edges s ! edge) \<noteq> graph_Node (nodes s ! src_node)
          then Some (Inl ExplicitPanic)
          else
     (case nest_Node (nodes s ! src_node) of
        None \<Rightarrow> Some (Inl ExplicitPanic)
      | Some src_nest \<Rightarrow>
     (case nest_Node (nodes s ! dst_node) of
        None \<Rightarrow> Some (Inl ExplicitPanic)
      | Some dst_nest \<Rightarrow>
          if nestTree_Nest (nests s ! src_nest) \<noteq> nestTree_Nest (nests s ! dst_nest)
          then Some (Inl ExplicitPanic)
          else
     (case nestTree_Nest (nests s ! src_nest) of
        None \<Rightarrow> Some (Inl NilDereference)
      | Some nt \<Rightarrow>
          if baseGraph (nestTrees s ! nt) \<noteq> graph_Edge (edges s ! edge)
          then Some (Inl ExplicitPanic)
          else
     (case calc_raise_src s src_nest dst_nest of
        None \<Rightarrow> None
      | Some (Inl p) \<Rightarrow> Some (Inl p)
      | Some (Inr src_nest1) \<Rightarrow>
     (case calc_raise_dst s dst_nest src_nest1 of
        None \<Rightarrow> None
      | Some (Inl p) \<Rightarrow> Some (Inl p)
      | Some (Inr dst_nest1) \<Rightarrow> calc_raise_both s dst_nest1 src_nest1)))))))"

definition calcNestAndMoveToIt :: "heap \<Rightarrow> ref \<Rightarrow> (panic + heap) option" where
  "calcNestAndMoveToIt s edge =
     (case calc_nest s edge of
        None \<Rightarrow> None
      | Some (Inl p) \<Rightarrow> Some (Inl p)
      | Some (Inr src_nest) \<Rightarrow>
         (case (case nest_Edge (edges s ! edge) of
                  Some old \<Rightarrow> removeEdge s old edge
                | None \<Rightarrow> Inr s) of
            Inl p \<Rightarrow> Some (Inl p)
          | Inr s1 \<Rightarrow>
              Some (addEdge (upd_edge edge (\<lambda>e. e\<lparr>nest_Edge := Some src_nest\<rparr>) s1) src_nest edge)))"

subsection \<open>Creating edges\<close>

text \<open>
  The part of \<^verbatim>\<open>NewEdge\<close> between its checks and the call of \<^verbatim>\<open>calcNestAndMoveToIt\<close>:
  the edge is allocated and put at the head of the outgoing list of its source and of the
  incoming list of its destination.
\<close>

definition NewEdge_link :: "heap \<Rightarrow> ref \<Rightarrow> ref \<Rightarrow> ref \<Rightarrow> heap" where
  "NewEdge_link s graph src_node dst_node =
     (let src_first_out_edge = firstOutcomingEdge (nodes s ! src_node);
          dst_first_in_edge = firstIncomingEdge (nodes s ! dst_node);
          edge = length (edges s);
          edge_p = \<lparr>id_Edge = edgeCount (graphs s ! graph), graph_Edge = Some graph,
              srcNode = Some src_node, dstNode = Some dst_node,
              nextOutcomingEdge = src_first_out_edge, prevOutcomingEdge = None,
              nextIncomingEdge = dst_first_in_edge, prevIncomingEdge = None,
              nextEdgeInNest = None, prevEdgeInNest = None, nest_Edge = None\<rparr>;
          s1 = s\<lparr>edges := edges s @ [edge_p]\<rparr>;
          s2 = (case src_first_out_edge of
                  Some f \<Rightarrow> upd_edge f (\<lambda>e. e\<lparr>prevOutcomingEdge := Some edge\<rparr>) s1
                | None \<Rightarrow> s1);
          s3 = upd_node src_node (\<lambda>n. n\<lparr>firstOutcomingEdge := Some edge\<rparr>) s2;
          s4 = (case dst_first_in_edge of
                  Some f \<Rightarrow> upd_edge f (\<lambda>e. e\<lparr>prevIncomingEdge := Some edge\<rparr>) s3
                | None \<Rightarrow> s3)
      in upd_node dst_node (\<lambda>n. n\<lparr>firstIncomingEdge := Some edge\<rparr>) s4)"

definition NewEdge ::
    "heap \<Rightarrow> ref \<Rightarrow> ref option \<Rightarrow> ref option \<Rightarrow> (panic + (heap \<times> ref option \<times> error option)) option" where
  "NewEdge s graph src_node' dst_node' =
     (case src_node' of
        None \<Rightarrow> Some (Inr (s, None, Some SrcNodeNil))
      | Some src_node \<Rightarrow>
     (case dst_node' of
        None \<Rightarrow> Some (Inr (s, None, Some DstNodeNil))
      | Some dst_node \<Rightarrow>
          if graph_Node (nodes s ! src_node) \<noteq> Some graph
          then Some (Inr (s, None, Some SrcNodeForeign))
          else if graph_Node (nodes s ! dst_node) \<noteq> Some graph
          then Some (Inr (s, None, Some DstNodeForeign))
          else
            let edge = length (edges s);
                s5 = NewEdge_link s graph src_node dst_node
            in (case calcNestAndMoveToIt s5 edge of
                  None \<Rightarrow> None
                | Some (Inl p) \<Rightarrow> Some (Inl p)
                | Some (Inr s6) \<Rightarrow>
                    Some (Inr (upd_graph graph (\<lambda>G. G\<lparr>edgeCount := edgeCount G + 1\<rparr>) s6,
                               Some edge, None)))))"

subsection \<open>Moving a node to a nest\<close>

text \<open>
  The two loops of \<^verbatim>\<open>MoveToNest\<close>. Their post statements are the bare calls
  \<^verbatim>\<open>edge.GetNextIncomingEdge()\<close> and \<^verbatim>\<open>edge.GetNextOutcomingEdge()\<close>, whose results are
  dropped: the loop variable \<^verbatim>\<open>edge\<close> is never assigned again, so every iteration sees the
  same edge.
\<close>

partial_function (option) MoveToNest_incoming :: "heap \<Rightarrow> ref option \<Rightarrow> (panic + heap) option" where
  "MoveToNest_incoming s edge =
     (case edge of
        None \<Rightarrow> Some (Inr s)
      | Some e \<Rightarrow>
          if nest_Edge (edges s ! e) = None then Some (Inl ExplicitPanic)
          else (case calcNestAndMoveToIt s e of
                  None \<Rightarrow> None
                | Some (Inl p) \<Rightarrow> Some (Inl p)
                | Some (Inr s1) \<Rightarrow>
                    let dropped = nextIncomingEdge (edges s1 ! e)
                    in MoveToNest_incoming s1 edge))"

declare MoveToNest_incoming.simps [code]

partial_function (option) MoveToNest_outcoming :: "heap \<Rightarrow> ref option \<Rightarrow> (panic + heap) option" where
  "MoveToNest_outcoming s edge =
     (case edge of
        None \<Rightarrow> Some (Inr s)
      | Some e \<Rightarrow>
          if nest_Edge (edges s ! e) = None then Some (Inl ExplicitPanic)
          else (case calcNestAndMoveToIt s e of
                  None \<Rightarrow> None
                | Some (Inl p) \<Rightarrow> Some (Inl p)
                | Some (Inr s1) \<Rightarrow>
                    let dropped = nextOutcomingEdge (edges s1 ! e)
                    in MoveToNest_outcoming s1 edge))"

declare MoveToNest_outcoming.simps [code]

text \<open>The part of \<^verbatim>\<open>MoveToNest\<close> before its loops: the node changes its membership list.\<close>

definition MoveToNest_relink :: "heap \<Rightarrow> ref \<Rightarrow> ref \<Rightarrow> panic + heap" where
  "MoveToNest_relink s node nest =
     (case nest_Node (nodes s ! node) of
        None \<Rightarrow> Inl ExplicitPanic
      | Some old \<Rightarrow>
         (case removeNode s old node of
            Inl p \<Rightarrow> Inl p
          | Inr s1 \<Rightarrow> addNode (upd_node node (\<lambda>n. n\<lparr>nest_Node := Some nest\<rparr>) s1) nest node))"

definition MoveToNest :: "heap \<Rightarrow> ref \<Rightarrow> ref \<Rightarrow> (panic + (heap \<times> error option)) option" where
  "MoveToNest s node nest =
     (case nestTree_Nest (nests s ! nest) of
        None \<Rightarrow> Some (Inl NilDereference)
      | Some nt \<Rightarrow>
          if baseGraph (nestTrees s ! nt) \<noteq> graph_Node (nodes s ! node)
          then Some (Inr (s, Some NestForeign))
          else
            (case MoveToNest_relink s node nest of
               Inl p \<Rightarrow> Some (Inl p)
             | Inr s1 \<Rightarrow>
                (case MoveToNest_incoming s1 (firstIncomingEdge (nodes s1 ! node)) of
                   None \<Rightarrow> None
                 | Some (Inl p) \<Rightarrow> Some (Inl p)
                 | Some (Inr s2) \<Rightarrow>
                    (case MoveToNest_outcoming s2 (firstOutcomingEdge (nodes s2 ! node)) of
                       None \<Rightarrow> None
                     | Some (Inl p) \<Rightarrow> Some (Inl p)
                     | Some (Inr s3) \<Rightarrow> Some (Inr (s3, None))))))"

section \<open>Reachable states\<close>

text \<open>
  A client of the package starts from nothing and calls exported functions and methods
  on the objects it was given. A state is reachable when a finite sequence of such calls,
  each of which returned, leads to it. A call that panics or does not return yields no
  state. Handles of attributes are passed as arbitrary values, which covers every handle
  a client can hold. The exported operations that only read (the getters, the iterators,
  the emitters) change nothing and are left out.
\<close>

definition live_opt :: "ref option \<Rightarrow> 'a list \<Rightarrow> bool" where
  "live_opt p xs \<longleftrightarrow> (case p of None \<Rightarrow> True | Some r \<Rightarrow> r < length xs)"

inductive reachable :: "heap \<Rightarrow> bool" where
  r_init: "reachable empty_heap"
| r_NewGraph: "reachable s \<Longrightarrow> NewGraph s attr_spec = Inr (s', g) \<Longrightarrow> reachable s'"
| r_NewNest: "reachable s \<Longrightarrow> nt < length (nestTrees s) \<Longrightarrow> NewNest s nt = Inr (s', r) \<Longrightarrow> reachable s'"
| r_NewNode: "reachable s \<Longrightarrow> g < length (graphs s) \<Longrightarrow> NewNode s g = Inr (s', n) \<Longrightarrow> reachable s'"
| r_NewEdge: "reachable s \<Longrightarrow> g < length (graphs s) \<Longrightarrow> live_opt src (nodes s) \<Longrightarrow>
     live_opt dst (nodes s) \<Longrightarrow> NewEdge s g src dst = Some (Inr (s', e, err)) \<Longrightarrow> reachable s'"
| r_MoveToNest: "reachable s \<Longrightarrow> n < length (nodes s) \<Longrightarrow> r < length (nests s) \<Longrightarrow>
     MoveToNest s n r = Some (Inr (s', err)) \<Longrightarrow> reachable s'"
| r_NewGraphStrAttr: "reachable s \<Longrightarrow> g < length (graphs s) \<Longrightarrow>
     NewGraphStrAttr s g = (s', ga, err) \<Longrightarrow> reachable s'"
| r_Graph_SetStrAttrVal: "reachable s \<Longrightarrow> g < length (graphs s) \<Longrightarrow>
     Graph_SetStrAttrVal s g ga val = Inr (s', err) \<Longrightarrow> reachable s'"
| r_Graph_RemoveStrAttr: "reachable s \<Longrightarrow> g < length (graphs s) \<Longrightarrow>
     Graph_RemoveStrAttr s g ga = Inr (s', err) \<Longrightarrow> reachable s'"
| r_ReleaseGraphStrAttr: "reachable s \<Longrightarrow> g < length (graphs s) \<Longrightarrow>
     ReleaseGraphStrAttr s g ga = Inr (s', ga', err) \<Longrightarrow> reachable s'"
| r_NewNodeStrAttr: "reachable s \<Longrightarrow> g < length (graphs s) \<Longrightarrow>
     NewNodeStrAttr s g = (s', na, err) \<Longrightarrow> reachable s'"
| r_Node_SetStrAttrVal: "reachable s \<Longrightarrow> n < length (nodes s) \<Longrightarrow>
     Node_SetStrAttrVal s n na val = Inr (s', err) \<Longrightarrow> reachable s'"
| r_Node_RemoveStrAttr: "reachable s \<Longrightarrow> n < length (nodes s) \<Longrightarrow>
     Node_RemoveStrAttr s n na = Inr (s', err) \<Longrightarrow> reachable s'"
| r_ReleaseNodeStrAttr: "reachable s \<Longrightarrow> g < length (graphs s) \<Longrightarrow>
     ReleaseNodeStrAttr s g na = Some (Inr (s', na', err)) \<Longrightarrow> reachable s'"
| r_NewNestStrAttr: "reachable s \<Longrightarrow> nt < length (nestTrees s) \<Longrightarrow>
     NewNestStrAttr s nt = (s', ta, err) \<Longrightarrow> reachable s'"
| r_Nest_SetStrAttrVal: "reachable s \<Longrightarrow> r < length (nests s) \<Longrightarrow>
     Nest_SetStrAttrVal s r ta val = Inr (s', err) \<Longrightarrow> reachable s'"
| r_Nest_RemoveStrAttr: "reachable s \<Longrightarrow> r < length (nests s) \<Longrightarrow>
     Nest_RemoveStrAttr s r ta = Inr (s', err) \<Longrightarrow> reachable s'"
| r_ReleaseNestStrAttr: "reachable s \<Longrightarrow> nt < length (nestTrees s) \<Longrightarrow>
     ReleaseNestStrAttr s nt ta = Some (Inr (s', ta', err)) \<Longrightarrow> reachable s'"

section \<open>Consistency of a heap\<close>

text \<open>
  The facts about the linked structure that every operation relies on and re-establishes.
  They are stated object by object.
\<close>

definition graph_ok :: "heap \<Rightarrow> ref \<Rightarrow> bool" where
  "graph_ok s g \<longleftrightarrow>
     0 \<le> GraphStrAttrNum (attrSpec (graphs s ! g)) \<and>
     0 \<le> NodeStrAttrNum (attrSpec (graphs s ! g)) \<and>
     0 \<le> NestStrAttrNum (attrSpec (graphs s ! g)) \<and>
     length (graphStrAttrAllocMap (graphs s ! g)) = nat (GraphStrAttrNum (attrSpec (graphs s ! g))) \<and>
     length (nodeStrAttrAllocMap (graphs s ! g)) = nat (NodeStrAttrNum (attrSpec (graphs s ! g))) \<and>
     length (strAttrs_Graph (graphs s ! g)) = nat (GraphStrAttrNum (attrSpec (graphs s ! g))) \<and>
     (\<exists>t. nestTree_Graph (graphs s ! g) = Some t \<and> t < length (nestTrees s) \<and>
          baseGraph (nestTrees s ! t) = Some g)"

definition tree_ok :: "heap \<Rightarrow> ref \<Rightarrow> bool" where
  "tree_ok s t \<longleftrightarrow>
     (\<exists>g root. baseGraph (nestTrees s ! t) = Some g \<and> g < length (graphs s) \<and>
        nestTree_Graph (graphs s ! g) = Some t \<and>
        length (nestStrAttrAllocMap (nestTrees s ! t)) = nat (NestStrAttrNum (attrSpec (graphs s ! g))) \<and>
        rootNest (nestTrees s ! t) = Some root \<and> root < length (nests s) \<and>
        nestTree_Nest (nests s ! root) = Some t \<and>
        parentNest (nests s ! root) = None \<and>
        level (nests s ! root) = 0 \<and>
        nextSiblingNest (nests s ! root) = None \<and>
        prevSiblingNest (nests s ! root) = None \<and>
        length (strAttrs_Nest (nests s ! root)) = 0 \<and>
        (\<forall>c. firstChildNest (nests s ! root) = Some c \<longrightarrow>
           c < length (nests s) \<and> prevSiblingNest (nests s ! c) = None \<and>
           parentNest (nests s ! c) = Some root))"

definition nest_ok :: "heap \<Rightarrow> ref \<Rightarrow> bool" where
  "nest_ok s r \<longleftrightarrow>
     (\<exists>t g root. nestTree_Nest (nests s ! r) = Some t \<and> t < length (nestTrees s) \<and>
        baseGraph (nestTrees s ! t) = Some g \<and> g < length (graphs s) \<and>
        rootNest (nestTrees s ! t) = Some root \<and>
        (r = root \<or>
           parentNest (nests s ! r) = Some root \<and> level (nests s ! r) = 1 \<and>
           firstChildNest (nests s ! r) = None \<and> lastChildNest (nests s ! r) = None \<and>
           length (strAttrs_Nest (nests s ! r)) = nat (NestStrAttrNum (attrSpec (graphs s ! g)))) \<and>
        (\<forall>q. nextSiblingNest (nests s ! r) = Some q \<longrightarrow>
           q < length (nests s) \<and> prevSiblingNest (nests s ! q) = Some r))"

definition node_ok :: "heap \<Rightarrow> ref \<Rightarrow> bool" where
  "node_ok s n \<longleftrightarrow>
     (\<exists>g r. graph_Node (nodes s ! n) = Some g \<and> g < length (graphs s) \<and>
        nest_Node (nodes s ! n) = Some r \<and> r < length (nests s) \<and>
        nestTree_Nest (nests s ! r) = nestTree_Graph (graphs s ! g) \<and>
        length (strAttrs_Node (nodes s ! n)) = nat (NodeStrAttrNum (attrSpec (graphs s ! g))) \<and>
        live_opt (firstIncomingEdge (nodes s ! n)) (edges s) \<and>
        live_opt (firstOutcomingEdge (nodes s ! n)) (edges s))"

text \<open>
  The nest that \<^verbatim>\<open>calcNestAndMoveToIt\<close> finds in a consistent heap, where every nest
  other than a root is a child of its root: the common nest of the two ends, else the root.
\<close>

definition meet_nest :: "heap \<Rightarrow> ref \<Rightarrow> ref \<Rightarrow> ref option" where
  "meet_nest s a b =
     (if a = b then Some a
      else (case nestTree_Nest (nests s ! a) of
              None \<Rightarrow> None
            | Some t \<Rightarrow> rootNest (nestTrees s ! t)))"

definition edge_ends_ok :: "heap \<Rightarrow> ref \<Rightarrow> bool" where
  "edge_ends_ok s e \<longleftrightarrow>
     (\<exists>g a b. graph_Edge (edges s ! e) = Some g \<and> g < length (graphs s) \<and>
        srcNode (edges s ! e) = Some a \<and> a < length (nodes s) \<and>
        dstNode (edges s ! e) = Some b \<and> b < length (nodes s) \<and>
        graph_Node (nodes s ! a) = Some g \<and> graph_Node (nodes s ! b) = Some g \<and>
        firstOutcomingEdge (nodes s ! a) \<noteq> None \<and>
        firstIncomingEdge (nodes s ! b) \<noteq> None)"

definition edge_nest_ok :: "heap \<Rightarrow> ref \<Rightarrow> bool" where
  "edge_nest_ok s e \<longleftrightarrow>
     (\<exists>g c. graph_Edge (edges s ! e) = Some g \<and> g < length (graphs s) \<and>
        nest_Edge (edges s ! e) = Some c \<and> c < length (nests s) \<and>
        nestTree_Nest (nests s ! c) = nestTree_Graph (graphs s ! g))"

definition edge_ok :: "heap \<Rightarrow> ref \<Rightarrow> bool" where
  "edge_ok s e \<longleftrightarrow> edge_ends_ok s e \<and> edge_nest_ok s e"

definition edge_attributed :: "heap \<Rightarrow> ref \<Rightarrow> bool" where
  "edge_attributed s e \<longleftrightarrow>
     (\<exists>a b na nb. srcNode (edges s ! e) = Some a \<and> dstNode (edges s ! e) = Some b \<and>
        nest_Node (nodes s ! a) = Some na \<and> nest_Node (nodes s ! b) = Some nb \<and>
        nest_Edge (edges s ! e) \<noteq> None \<and>
        nest_Edge (edges s ! e) = meet_nest s na nb)"

definition frame_ok :: "heap \<Rightarrow> bool" where
  "frame_ok s \<longleftrightarrow>
     (\<forall>g < length (graphs s). graph_ok s g) \<and>
     (\<forall>t < length (nestTrees s). tree_ok s t) \<and>
     (\<forall>r < length (nests s). nest_ok s r) \<and>
     (\<forall>n < length (nodes s). node_ok s n)"

definition linked :: "heap \<Rightarrow> bool" where
  "linked s \<longleftrightarrow> frame_ok s \<and> (\<forall>e < length (edges s). edge_ok s e)"

definition consistent :: "heap \<Rightarrow> bool" where
  "consistent s \<longleftrightarrow> linked s \<and> (\<forall>e < length (edges s). edge_attributed s e)"

text \<open>
  The fields that the consistency of a heap depends on. Two heaps that agree on them are
  consistent together; the membership lists, the counters and the stored attribute
  values are not among them.
\<close>

definition graph_core :: "Graph \<Rightarrow> ref option \<times> AttrSpec \<times> nat \<times> nat \<times> nat" where
  "graph_core G = (nestTree_Graph G, attrSpec G, length (graphStrAttrAllocMap G),
     length (nodeStrAttrAllocMap G), length (strAttrs_Graph G))"

definition tree_core :: "NestTree \<Rightarrow> ref option \<times> ref option \<times> nat" where
  "tree_core T = (baseGraph T, rootNest T, length (nestStrAttrAllocMap T))"

definition nest_core ::
    "Nest \<Rightarrow> ref option \<times> int \<times> ref option \<times> ref option \<times> ref option \<times> ref option \<times> ref option \<times> nat" where
  "nest_core N = (nestTree_Nest N, level N, parentNest N, firstChildNest N, lastChildNest N,
     nextSiblingNest N, prevSiblingNest N, length (strAttrs_Nest N))"

definition node_core :: "Node \<Rightarrow> ref option \<times> ref option \<times> nat \<times> ref option \<times> ref option" where
  "node_core N = (graph_Node N, nest_Node N, length (strAttrs_Node N),
     firstIncomingEdge N, firstOutcomingEdge N)"

definition edge_core :: "Edge \<Rightarrow> ref option \<times> ref option \<times> ref option \<times> ref option" where
  "edge_core E = (graph_Edge E, srcNode E, dstNode E, nest_Edge E)"

definition same_links :: "heap \<Rightarrow> heap \<Rightarrow> bool" where
  "same_links s s' \<longleftrightarrow>
     length (graphs s') = length (graphs s) \<and> length (nestTrees s') = length (nestTrees s) \<and>
     length (nests s') = length (nests s) \<and> length (nodes s') = length (nodes s) \<and>
     length (edges s') = length (edges s) \<and>
     (\<forall>i. graph_core (graphs s' ! i) = graph_core (graphs s ! i)) \<and>
     (\<forall>i. tree_core (nestTrees s' ! i) = tree_core (nestTrees s ! i)) \<and>
     (\<forall>i. nest_core (nests s' ! i) = nest_core (nests s ! i)) \<and>
     (\<forall>i. node_core (nodes s' ! i) = node_core (nodes s ! i)) \<and>
     (\<forall>i. edge_core (edges s' ! i) = edge_core (edges s ! i))"

section \<open>Notions of the specification and example states\<close>

text \<open>
  What the specification promises of an allocation, in its own words: the handle is onto
  the lowest-numbered free slot of the pool \<open>m\<close>, that slot becomes allocated and the pool
  keeps its size; the call fails with the exhaustion error exactly when no slot is free.
\<close>

definition lowest_free_allocated :: "bool list \<Rightarrow> bool list \<Rightarrow> int \<Rightarrow> bool \<Rightarrow> error option \<Rightarrow> bool" where
  "lowest_free_allocated m m' i valid err \<longleftrightarrow>
     (if \<exists>j < length m. \<not> m ! j
      then err = None \<and> valid \<and> 0 \<le> i \<and> nat i < length m \<and> \<not> m ! nat i \<and>
           (\<forall>j < nat i. m ! j) \<and> m' = m[nat i := True]
      else err = Some AttrExhausted \<and> \<not> valid \<and> m' = m)"

text \<open>A graph whose three attribute pools have one slot each, in an otherwise empty heap.\<close>

definition spec111 :: AttrSpec where
  "spec111 = \<lparr>GraphStrAttrNum = 1, NodeStrAttrNum = 1, NestStrAttrNum = 1\<rparr>"

definition demo_graph :: heap where
  "demo_graph = (case NewGraph empty_heap spec111 of Inr (s, g) \<Rightarrow> s)"

text \<open>A node in that graph (node 0, in the root nest 0).\<close>

definition demo_node :: heap where
  "demo_node = fst (projr (NewNode demo_graph 0))"

text \<open>
  Two graphs: graph 0 with node 0, and graph 1. The node attribute of slot 0 is allocated
  in both; node 0 has it set to \<open>''x''\<close> under the handle of its own graph.
\<close>

definition own_attr :: NodeStrAttr where
  "own_attr = \<lparr>attrNum = 0, isValid = True, graph_Attr = Some 0\<rparr>"

definition foreign_attr :: NodeStrAttr where
  "foreign_attr = \<lparr>attrNum = 0, isValid = True, graph_Attr = Some 1\<rparr>"

definition demo_two_graphs :: heap where
  "demo_two_graphs =
     (let s1 = fst (projr (NewGraph demo_node spec111));
          s2 = fst (NewNodeStrAttr s1 0);
          s3 = fst (NewNodeStrAttr s2 1)
      in fst (projr (Node_SetStrAttrVal s3 0 own_attr ''x'')))"

text \<open>The graph of \<open>demo_graph\<close> after one call of \<^verbatim>\<open>NewNest\<close>: root nest 0 and its child, nest 1.\<close>

definition demo_nest :: heap where
  "demo_nest = fst (projr (NewNest demo_graph 0))"

text \<open>
  The Go expression \<^verbatim>\<open>g.GetNextNest().GetPrevNest()\<close>: when \<^verbatim>\<open>GetNextNest\<close> returns
  \<^verbatim>\<open>nil\<close>, \<^verbatim>\<open>GetPrevNest\<close> reads a field through the nil receiver and panics.
\<close>

definition prev_of_next :: "heap \<Rightarrow> ref \<Rightarrow> (panic + ref option) option" where
  "prev_of_next s g =
     (case GetNextNest s g of
        None \<Rightarrow> None
      | Some None \<Rightarrow> Some (Inl NilDereference)
      | Some (Some n) \<Rightarrow> map_option Inr (GetPrevNest s n))"

text \<open>
  The nests from \<open>r\<close> up to the root, following \<^verbatim>\<open>parentNest\<close>; a nest counts among its
  own ancestors. The walk is cut after as many steps as there are nests.
\<close>

fun ancestors :: "heap \<Rightarrow> nat \<Rightarrow> ref \<Rightarrow> ref list" where
  "ancestors s 0 r = [r]"
| "ancestors s (Suc k) r =
     r # (case parentNest (nests s ! r) of None \<Rightarrow> [] | Some p \<Rightarrow> ancestors s k p)"

definition nest_ancestors :: "heap \<Rightarrow> ref \<Rightarrow> ref list" where
  "nest_ancestors s r = ancestors s (length (nests s)) r"

text \<open>
  The nearest common ancestor in the words of the specification: the deepest nest that is
  an ancestor of both.
\<close>

definition nearest_common_ancestor :: "heap \<Rightarrow> ref \<Rightarrow> ref \<Rightarrow> ref \<Rightarrow> bool" where
  "nearest_common_ancestor s a b c \<longleftrightarrow>
     c \<in> set (nest_ancestors s a) \<and> c \<in> set (nest_ancestors s b) \<and>
     (\<forall>c' \<in> set (nest_ancestors s a).
        c' \<in> set (nest_ancestors s b) \<longrightarrow> level (nests s ! c') \<le> level (nests s ! c))"

text \<open>
  A scenario: a second child nest (nest 2), two nodes (0 and 1) created in the root, node
  0 moved to nest 1 and node 1 to nest 2 while they have no edges, and then an edge
  (edge 0) from node 0 to node 1.
\<close>

definition demo_two_nests :: heap where
  "demo_two_nests = fst (projr (NewNest demo_nest 0))"

definition demo_two_nodes :: heap where
  "demo_two_nodes = fst (projr (NewNode (fst (projr (NewNode demo_two_nests 0))) 0))"

definition demo_placed :: heap where
  "demo_placed =
     fst (projr (the (MoveToNest (fst (projr (the (MoveToNest demo_two_nodes 0 1)))) 1 2)))"

definition demo_edge :: heap where
  "demo_edge = fst (projr (the (NewEdge demo_placed 0 (Some 0) (Some 1))))"

text \<open>
  What the specification promises of a successful \<^verbatim>\<open>NewEdge\<close>: the new edge \<open>e\<close> goes from
  \<open>a\<close> to \<open>b\<close> and stands at the head of the outgoing list of \<open>a\<close> and of the incoming list of
  \<open>b\<close>, in front of the former heads; the edges that were there keep their ends.
\<close>

definition edge_head_inserted :: "heap \<Rightarrow> heap \<Rightarrow> ref \<Rightarrow> ref \<Rightarrow> ref \<Rightarrow> bool" where
  "edge_head_inserted s s' a b e \<longleftrightarrow>
     e = length (edges s) \<and> length (edges s') = Suc (length (edges s)) \<and>
     srcNode (edges s' ! e) = Some a \<and> dstNode (edges s' ! e) = Some b \<and>
     firstOutcomingEdge (nodes s' ! a) = Some e \<and>
     nextOutcomingEdge (edges s' ! e) = firstOutcomingEdge (nodes s ! a) \<and>
     prevOutcomingEdge (edges s' ! e) = None \<and>
     (\<forall>f. firstOutcomingEdge (nodes s ! a) = Some f \<longrightarrow> prevOutcomingEdge (edges s' ! f) = Some e) \<and>
     firstIncomingEdge (nodes s' ! b) = Some e \<and>
     nextIncomingEdge (edges s' ! e) = firstIncomingEdge (nodes s ! b) \<and>
     prevIncomingEdge (edges s' ! e) = None \<and>
     (\<forall>f. firstIncomingEdge (nodes s ! b) = Some f \<longrightarrow> prevIncomingEdge (edges s' ! f) = Some e) \<and>
     (\<forall>i < length (edges s). srcNode (edges s' ! i) = srcNode (edges s ! i) \<and>
        dstNode (edges s' ! i) = dstNode (edges s ! i))"

text \<open>The scenario before its edge, with two edges from node 0 to node 1 created in a row.\<close>

definition demo_parallel :: heap where
  "demo_parallel = fst (projr (the (NewEdge demo_edge 0 (Some 0) (Some 1))))"

text \<open>
  The graph with its child nest 1, the nest attribute of slot 0 allocated and set to
  \<open>''x''\<close> on nest 1 under the handle returned by the allocation.
\<close>

definition nest_attr :: NestStrAttr where
  "nest_attr = \<lparr>attr_num = 0, is_valid = True, nestTree_Attr = Some 0\<rparr>"

definition demo_nest_attr :: heap where
  "demo_nest_attr =
     fst (projr (Nest_SetStrAttrVal (fst (NewNestStrAttr demo_nest 0)) 1 nest_attr ''x''))"

section \<open>Properties of the store\<close>

lemma upd_graph_simps [simp]:
  "graphs (upd_graph r f s) = (graphs s)[r := f (graphs s ! r)]"
  "nestTrees (upd_graph r f s) = nestTrees s"
  "nests (upd_graph r f s) = nests s"
  "nodes (upd_graph r f s) = nodes s"
  "edges (upd_graph r f s) = edges s"
  by (simp_all add: upd_graph_def)

lemma upd_nestTree_simps [simp]:
  "graphs (upd_nestTree r f s) = graphs s"
  "nestTrees (upd_nestTree r f s) = (nestTrees s)[r := f (nestTrees s ! r)]"
  "nests (upd_nestTree r f s) = nests s"
  "nodes (upd_nestTree r f s) = nodes s"
  "edges (upd_nestTree r f s) = edges s"
  by (simp_all add: upd_nestTree_def)

lemma upd_nest_simps [simp]:
  "graphs (upd_nest r f s) = graphs s"
  "nestTrees (upd_nest r f s) = nestTrees s"
  "nests (upd_nest r f s) = (nests s)[r := f (nests s ! r)]"
  "nodes (upd_nest r f s) = nodes s"
  "edges (upd_nest r f s) = edges s"
  by (simp_all add: upd_nest_def)

lemma upd_node_simps [simp]:
  "graphs (upd_node r f s) = graphs s"
  "nestTrees (upd_node r f s) = nestTrees s"
  "nests (upd_node r f s) = nests s"
  "nodes (upd_node r f s) = (nodes s)[r := f (nodes s ! r)]"
  "edges (upd_node r f s) = edges s"
  by (simp_all add: upd_node_def)

lemma upd_edge_simps [simp]:
  "graphs (upd_edge r f s) = graphs s"
  "nestTrees (upd_edge r f s) = nestTrees s"
  "nests (upd_edge r f s) = nests s"
  "nodes (upd_edge r f s) = nodes s"
  "edges (upd_edge r f s) = (edges s)[r := f (edges s ! r)]"
  by (simp_all add: upd_edge_def)

text \<open>Reading a cell of an arena after a write through a pointer, in or out of range.\<close>

lemma nth_upd_total:
  "(xs[r := f (xs ! r)]) ! i = (if i = r \<and> r < length xs then f (xs ! r) else xs ! i)"
  by (cases "r < length xs") (auto simp: nth_list_update list_update_beyond)

lemma same_links_refl [simp]: "same_links s s"
  by (simp add: same_links_def)

lemma same_links_trans: "same_links s s' \<Longrightarrow> same_links s' s'' \<Longrightarrow> same_links s s''"
  by (simp add: same_links_def)

lemma same_links_fields:
  assumes "same_links s s'"
  shows "length (graphs s') = length (graphs s)" "length (nestTrees s') = length (nestTrees s)"
    "length (nests s') = length (nests s)" "length (nodes s') = length (nodes s)"
    "length (edges s') = length (edges s)"
    "nestTree_Graph (graphs s' ! i) = nestTree_Graph (graphs s ! i)"
    "attrSpec (graphs s' ! i) = attrSpec (graphs s ! i)"
    "length (graphStrAttrAllocMap (graphs s' ! i)) = length (graphStrAttrAllocMap (graphs s ! i))"
    "length (nodeStrAttrAllocMap (graphs s' ! i)) = length (nodeStrAttrAllocMap (graphs s ! i))"
    "length (strAttrs_Graph (graphs s' ! i)) = length (strAttrs_Graph (graphs s ! i))"
    "baseGraph (nestTrees s' ! i) = baseGraph (nestTrees s ! i)"
    "rootNest (nestTrees s' ! i) = rootNest (nestTrees s ! i)"
    "length (nestStrAttrAllocMap (nestTrees s' ! i)) = length (nestStrAttrAllocMap (nestTrees s ! i))"
    "nestTree_Nest (nests s' ! i) = nestTree_Nest (nests s ! i)"
    "level (nests s' ! i) = level (nests s ! i)"
    "parentNest (nests s' ! i) = parentNest (nests s ! i)"
    "firstChildNest (nests s' ! i) = firstChildNest (nests s ! i)"
    "lastChildNest (nests s' ! i) = lastChildNest (nests s ! i)"
    "nextSiblingNest (nests s' ! i) = nextSiblingNest (nests s ! i)"
    "prevSiblingNest (nests s' ! i) = prevSiblingNest (nests s ! i)"
    "length (strAttrs_Nest (nests s' ! i)) = length (strAttrs_Nest (nests s ! i))"
    "graph_Node (nodes s' ! i) = graph_Node (nodes s ! i)"
    "nest_Node (nodes s' ! i) = nest_Node (nodes s ! i)"
    "length (strAttrs_Node (nodes s' ! i)) = length (strAttrs_Node (nodes s ! i))"
    "firstIncomingEdge (nodes s' ! i) = firstIncomingEdge (nodes s ! i)"
    "firstOutcomingEdge (nodes s' ! i) = firstOutcomingEdge (nodes s ! i)"
    "graph_Edge (edges s' ! i) = graph_Edge (edges s ! i)"
    "srcNode (edges s' ! i) = srcNode (edges s ! i)"
    "dstNode (edges s' ! i) = dstNode (edges s ! i)"
    "nest_Edge (edges s' ! i) = nest_Edge (edges s ! i)"
  using assms unfolding same_links_def graph_core_def tree_core_def nest_core_def node_core_def edge_core_def
  by (simp_all only: prod.inject)

lemma same_links_upd_graph:
  "graph_core (f (graphs s ! r)) = graph_core (graphs s ! r) \<Longrightarrow> same_links s (upd_graph r f s)"
  by (simp add: same_links_def nth_upd_total)

lemma same_links_upd_nestTree:
  "tree_core (f (nestTrees s ! r)) = tree_core (nestTrees s ! r) \<Longrightarrow> same_links s (upd_nestTree r f s)"
  by (simp add: same_links_def nth_upd_total)

lemma same_links_upd_nest:
  "nest_core (f (nests s ! r)) = nest_core (nests s ! r) \<Longrightarrow> same_links s (upd_nest r f s)"
  by (simp add: same_links_def nth_upd_total)

lemma same_links_upd_node:
  "node_core (f (nodes s ! r)) = node_core (nodes s ! r) \<Longrightarrow> same_links s (upd_node r f s)"
  by (simp add: same_links_def nth_upd_total)

lemma same_links_upd_edge:
  "edge_core (f (edges s ! r)) = edge_core (edges s ! r) \<Longrightarrow> same_links s (upd_edge r f s)"
  by (simp add: same_links_def nth_upd_total)

lemma same_links_ok:
  assumes "same_links s s'"
  shows "graph_ok s' g = graph_ok s g" "tree_ok s' t = tree_ok s t" "nest_ok s' r = nest_ok s r"
    "node_ok s' n = node_ok s n" "edge_ok s' e = edge_ok s e"
    "edge_ends_ok s' e = edge_ends_ok s e" "edge_nest_ok s' e = edge_nest_ok s e"
    "edge_attributed s' e = edge_attributed s e"
  unfolding graph_ok_def tree_ok_def nest_ok_def node_ok_def edge_ok_def edge_attributed_def
    edge_ends_ok_def edge_nest_ok_def meet_nest_def live_opt_def
  by (simp_all only: same_links_fields[OF assms])

lemma same_links_frame_ok: "same_links s s' \<Longrightarrow> frame_ok s' = frame_ok s"
  unfolding frame_ok_def by (simp add: same_links_ok same_links_fields(1-5))

lemma same_links_linked: "same_links s s' \<Longrightarrow> linked s' = linked s"
  unfolding linked_def same_links_frame_ok by (simp add: same_links_ok same_links_fields(1-5))

lemma same_links_consistent: "same_links s s' \<Longrightarrow> consistent s' = consistent s"
  unfolding consistent_def by (simp add: same_links_ok same_links_linked same_links_fields(1-5))



lemmas core_defs = graph_core_def tree_core_def nest_core_def node_core_def edge_core_def

lemma same_links_step:
  "same_links s s1 \<Longrightarrow> graph_core (fg (graphs s1 ! r)) = graph_core (graphs s1 ! r) \<Longrightarrow> same_links s (upd_graph r fg s1)"
  "same_links s s1 \<Longrightarrow> tree_core (ft (nestTrees s1 ! r)) = tree_core (nestTrees s1 ! r) \<Longrightarrow> same_links s (upd_nestTree r ft s1)"
  "same_links s s1 \<Longrightarrow> nest_core (fn (nests s1 ! r)) = nest_core (nests s1 ! r) \<Longrightarrow> same_links s (upd_nest r fn s1)"
  "same_links s s1 \<Longrightarrow> node_core (fd (nodes s1 ! r)) = node_core (nodes s1 ! r) \<Longrightarrow> same_links s (upd_node r fd s1)"
  "same_links s s1 \<Longrightarrow> edge_core (fe (edges s1 ! r)) = edge_core (edges s1 ! r) \<Longrightarrow> same_links s (upd_edge r fe s1)"
  by (blast intro: same_links_trans same_links_upd_graph same_links_upd_nestTree same_links_upd_nest
        same_links_upd_node same_links_upd_edge)+

lemma addNode_same_links: "addNode s nest node = Inr s' \<Longrightarrow> same_links s s'"
  by (auto simp: addNode_def Let_def core_defs split: option.splits if_splits intro!: same_links_step)

lemma removeNode_same_links: "removeNode s nest node = Inr s' \<Longrightarrow> same_links s s'"
  by (auto simp: removeNode_def Let_def core_defs split: option.splits if_splits intro!: same_links_step)

lemma addEdge_same_links: "addEdge s nest edge = Inr s' \<Longrightarrow> same_links s s'"
  by (auto simp: addEdge_def Let_def core_defs split: option.splits if_splits intro!: same_links_step)

lemma removeEdge_same_links: "removeEdge s nest edge = Inr s' \<Longrightarrow> same_links s s'"
  by (auto simp: removeEdge_def Let_def core_defs split: option.splits if_splits intro!: same_links_step)

lemma attr_ops_same_links:
  "NewGraphStrAttr s g = (s', ga, err) \<Longrightarrow> same_links s s'"
  "Graph_SetStrAttrVal s g ga val = Inr (s', err) \<Longrightarrow> same_links s s'"
  "Graph_RemoveStrAttr s g ga = Inr (s', err) \<Longrightarrow> same_links s s'"
  "NewNodeStrAttr s g = (s', na, err) \<Longrightarrow> same_links s s'"
  "Node_SetStrAttrVal s n na val = Inr (s', err) \<Longrightarrow> same_links s s'"
  "Node_RemoveStrAttr s n na = Inr (s', err) \<Longrightarrow> same_links s s'"
  "NewNestStrAttr s nt = (s', ta, err) \<Longrightarrow> same_links s s'"
  "Nest_SetStrAttrVal s r ta val = Inr (s', err) \<Longrightarrow> same_links s s'"
  "Nest_RemoveStrAttr s r ta = Inr (s', err) \<Longrightarrow> same_links s s'"
  by (auto simp: NewGraphStrAttr_def Graph_SetStrAttrVal_def Graph_RemoveStrAttr_def
        NewNodeStrAttr_def Node_SetStrAttrVal_def Node_RemoveStrAttr_def
        NewNestStrAttr_def Nest_SetStrAttrVal_def Nest_RemoveStrAttr_def
        Let_def core_defs split: option.splits if_splits intro!: same_links_step)

lemma ReleaseGraphStrAttr_same_links:
  "ReleaseGraphStrAttr s g ga = Inr (s', ga', err) \<Longrightarrow> same_links s s'"
  by (auto simp: ReleaseGraphStrAttr_def Let_def core_defs split: option.splits if_splits sum.splits
        intro!: same_links_step dest: attr_ops_same_links(3))

lemma ReleaseNodeStrAttr_sweep_same_links:
  "ReleaseNodeStrAttr_sweep s attr node = Some y \<Longrightarrow> \<forall>s1. y = Inr s1 \<longrightarrow> same_links s s1"
proof (induct rule: ReleaseNodeStrAttr_sweep.raw_induct[rotated 1, consumes 1, case_names 1])
  case (1 sweep s attr node y)
  show ?case
  proof (intro allI impI)
    fix s1 assume y: "y = Inr s1"
    show "same_links s s1"
    proof (cases node)
      case None
      with 1(2) y show ?thesis by simp
    next
      case (Some r)
      with 1(2) y obtain res nxt where rm: "Node_RemoveStrAttr s r attr = Inr res"
        and rec: "sweep (fst res) attr nxt = Some (Inr s1)"
        by (auto split: sum.splits Option.bind_splits)
      from rm have "same_links s (fst res)"
        by (cases res) (auto dest: attr_ops_same_links(6))
      moreover from 1(1)[OF rec] have "same_links (fst res) s1" by simp
      ultimately show ?thesis by (rule same_links_trans)
    qed
  qed
qed

lemma ReleaseNestStrAttr_sweep_same_links:
  "ReleaseNestStrAttr_sweep s attr nest = Some y \<Longrightarrow> \<forall>s1. y = Inr s1 \<longrightarrow> same_links s s1"
proof (induct rule: ReleaseNestStrAttr_sweep.raw_induct[rotated 1, consumes 1, case_names 1])
  case (1 sweep s attr nest y)
  show ?case
  proof (intro allI impI)
    fix s1 assume y: "y = Inr s1"
    show "same_links s s1"
    proof (cases nest)
      case None
      with 1(2) y show ?thesis by simp
    next
      case (Some r)
      with 1(2) y obtain res nxt where rm: "Nest_RemoveStrAttr s r attr = Inr res"
        and rec: "sweep (fst res) attr nxt = Some (Inr s1)"
        by (auto split: sum.splits Option.bind_splits)
      from rm have "same_links s (fst res)"
        by (cases res) (auto dest: attr_ops_same_links(9))
      moreover from 1(1)[OF rec] have "same_links (fst res) s1" by simp
      ultimately show ?thesis by (rule same_links_trans)
    qed
  qed
qed

lemma ReleaseNodeStrAttr_same_links:
  "ReleaseNodeStrAttr s g na = Some (Inr (s', na', err)) \<Longrightarrow> same_links s s'"
  by (auto simp: ReleaseNodeStrAttr_def Let_def core_defs split: option.splits if_splits sum.splits
        intro!: same_links_step dest: ReleaseNodeStrAttr_sweep_same_links)

lemma ReleaseNestStrAttr_same_links:
  "ReleaseNestStrAttr s nt ta = Some (Inr (s', ta', err)) \<Longrightarrow> same_links s s'"
  by (auto simp: ReleaseNestStrAttr_def Let_def core_defs split: option.splits if_splits sum.splits
        intro!: same_links_step dest: ReleaseNestStrAttr_sweep_same_links)

section \<open>Allocation of attribute slots\<close>

lemma alloc_scan_Some:
  "alloc_scan m i = Some k \<longleftrightarrow>
     i \<le> k \<and> k < length m \<and> \<not> m ! k \<and> (\<forall>j. i \<le> j \<and> j < k \<longrightarrow> m ! j)"
proof (induction m i rule: alloc_scan.induct)
  case (1 m i)
  show ?case
  proof (cases "i < length m")
    case False
    then show ?thesis by (subst alloc_scan.simps) auto
  next
    case True
    show ?thesis
    proof (cases "m ! i")
      case False
      with True show ?thesis
        by (subst alloc_scan.simps) (auto simp: not_less dest: le_neq_implies_less)
    next
      case mi: True
      have "alloc_scan m i = alloc_scan m (i + 1)"
        using True mi by (subst alloc_scan.simps) simp
      also have "\<dots> = Some k \<longleftrightarrow>
          i + 1 \<le> k \<and> k < length m \<and> \<not> m ! k \<and> (\<forall>j. i + 1 \<le> j \<and> j < k \<longrightarrow> m ! j)"
        using 1 True mi by simp
      also have "\<dots> \<longleftrightarrow> i \<le> k \<and> k < length m \<and> \<not> m ! k \<and> (\<forall>j. i \<le> j \<and> j < k \<longrightarrow> m ! j)"
      proof -
        have eq: "\<And>j. i \<le> j \<longleftrightarrow> j = i \<or> i + 1 \<le> j" by arith
        show ?thesis using mi by (auto simp: eq)
      qed
      finally show ?thesis .
    qed
  qed
qed

lemma alloc_scan_None:
  "alloc_scan m i = None \<longleftrightarrow> (\<forall>j. i \<le> j \<and> j < length m \<longrightarrow> m ! j)"
proof -
  have "alloc_scan m i = None \<longleftrightarrow> \<not> (\<exists>k. alloc_scan m i = Some k)" by auto
  also have "\<dots> \<longleftrightarrow> (\<forall>j. i \<le> j \<and> j < length m \<longrightarrow> m ! j)"
  proof
    assume h: "\<not> (\<exists>k. alloc_scan m i = Some k)"
    show "\<forall>j. i \<le> j \<and> j < length m \<longrightarrow> m ! j"
    proof (rule ccontr)
      assume "\<not> (\<forall>j. i \<le> j \<and> j < length m \<longrightarrow> m ! j)"
      then have ex: "\<exists>j. i \<le> j \<and> j < length m \<and> \<not> m ! j" by blast
      define k where "k = (LEAST j. i \<le> j \<and> j < length m \<and> \<not> m ! j)"
      have k: "i \<le> k \<and> k < length m \<and> \<not> m ! k"
        unfolding k_def using ex by (rule LeastI_ex)
      have "\<forall>j. i \<le> j \<and> j < k \<longrightarrow> m ! j"
      proof (intro allI impI)
        fix j assume j: "i \<le> j \<and> j < k"
        show "m ! j"
        proof (rule ccontr)
          assume "\<not> m ! j"
          with j k have "i \<le> j \<and> j < length m \<and> \<not> m ! j" by simp
          then have "k \<le> j" unfolding k_def by (rule Least_le)
          with j show False by simp
        qed
      qed
      with k have "alloc_scan m i = Some k" by (simp add: alloc_scan_Some)
      with h show False by blast
    qed
  next
    assume "\<forall>j. i \<le> j \<and> j < length m \<longrightarrow> m ! j"
    then show "\<not> (\<exists>k. alloc_scan m i = Some k)" by (auto simp: alloc_scan_Some)
  qed
  finally show ?thesis .
qed

lemma alloc_scan_cases:
  "(\<exists>i. alloc_scan m 0 = Some i \<and> i < length m \<and> \<not> m ! i \<and> (\<forall>j < i. m ! j)) \<or>
   (alloc_scan m 0 = None \<and> (\<forall>j < length m. m ! j))"
proof (cases "alloc_scan m 0")
  case None
  then show ?thesis by (simp add: alloc_scan_None)
next
  case (Some i)
  then show ?thesis by (auto simp: alloc_scan_Some)
qed

text \<open>
  Claim C8. Each of the three allocators (\<^verbatim>\<open>NewGraphStrAttr\<close>, \<^verbatim>\<open>NewNodeStrAttr\<close>,
  \<^verbatim>\<open>NewNestStrAttr\<close>) returns a valid handle onto the lowest-numbered free slot of its
  pool and marks that slot allocated, the pool keeping its size; it returns the exhaustion
  error, and changes nothing, exactly when the pool has no free slot.
\<close>

theorem allocate_lowest_free_slot:
  assumes "g < length (graphs s)" and "nt < length (nestTrees s)"
  shows "(case NewGraphStrAttr s g of (s', a, err) \<Rightarrow>
            lowest_free_allocated (graphStrAttrAllocMap (graphs s ! g))
              (graphStrAttrAllocMap (graphs s' ! g)) (attrNum a) (isValid a) err \<and>
            (isValid a \<longrightarrow> graph_Attr a = Some g)) \<and>
         (case NewNodeStrAttr s g of (s', a, err) \<Rightarrow>
            lowest_free_allocated (nodeStrAttrAllocMap (graphs s ! g))
              (nodeStrAttrAllocMap (graphs s' ! g)) (attrNum a) (isValid a) err \<and>
            (isValid a \<longrightarrow> graph_Attr a = Some g)) \<and>
         (case NewNestStrAttr s nt of (s', a, err) \<Rightarrow>
            lowest_free_allocated (nestStrAttrAllocMap (nestTrees s ! nt))
              (nestStrAttrAllocMap (nestTrees s' ! nt)) (attr_num a) (is_valid a) err \<and>
            (is_valid a \<longrightarrow> nestTree_Attr a = Some nt))"
proof (intro conjI)
  show "case NewGraphStrAttr s g of (s', a, err) \<Rightarrow>
            lowest_free_allocated (graphStrAttrAllocMap (graphs s ! g))
              (graphStrAttrAllocMap (graphs s' ! g)) (attrNum a) (isValid a) err \<and>
            (isValid a \<longrightarrow> graph_Attr a = Some g)"
    using alloc_scan_cases[of "graphStrAttrAllocMap (graphs s ! g)"] assms(1)
    by (auto simp: NewGraphStrAttr_def lowest_free_allocated_def graph_str_attr_invalid_def)
  show "case NewNodeStrAttr s g of (s', a, err) \<Rightarrow>
            lowest_free_allocated (nodeStrAttrAllocMap (graphs s ! g))
              (nodeStrAttrAllocMap (graphs s' ! g)) (attrNum a) (isValid a) err \<and>
            (isValid a \<longrightarrow> graph_Attr a = Some g)"
    using alloc_scan_cases[of "nodeStrAttrAllocMap (graphs s ! g)"] assms(1)
    by (auto simp: NewNodeStrAttr_def lowest_free_allocated_def node_str_attr_invalid_def)
  show "case NewNestStrAttr s nt of (s', a, err) \<Rightarrow>
            lowest_free_allocated (nestStrAttrAllocMap (nestTrees s ! nt))
              (nestStrAttrAllocMap (nestTrees s' ! nt)) (attr_num a) (is_valid a) err \<and>
            (is_valid a \<longrightarrow> nestTree_Attr a = Some nt)"
    using alloc_scan_cases[of "nestStrAttrAllocMap (nestTrees s ! nt)"] assms(2)
    by (auto simp: NewNestStrAttr_def lowest_free_allocated_def nest_str_attr_invalid_def)
qed

theorem allocate_lowest_free_slot_witness:
  "0 < length (graphs demo_graph) \<and> 0 < length (nestTrees demo_graph) \<and>
   (case NewNodeStrAttr demo_graph 0 of (s', a, err) \<Rightarrow>
      lowest_free_allocated (nodeStrAttrAllocMap (graphs demo_graph ! 0))
        (nodeStrAttrAllocMap (graphs s' ! 0)) (attrNum a) (isValid a) err \<and>
      attrNum a = 0 \<and> err = None \<and>
      snd (snd (NewNodeStrAttr s' 0)) = Some AttrExhausted)"
proof -
  have h1: "0 < length (graphs demo_graph)" by code_simp
  have h2: "0 < length (nestTrees demo_graph)" by code_simp
  have e: "case NewNodeStrAttr demo_graph 0 of (s', a, err) \<Rightarrow>
      attrNum a = 0 \<and> err = None \<and> snd (snd (NewNodeStrAttr s' 0)) = Some AttrExhausted"
    by code_simp
  show ?thesis
    using allocate_lowest_free_slot[OF h1 h2] h1 h2 e by (auto split: prod.splits)
qed

section \<open>Behaviour at concrete inputs\<close>

text \<open>
  Claim C5 (not met by the code). \<^verbatim>\<open>RemoveStrAttr\<close> is to fail with an error, and to
  change nothing, when the handle is invalid or belongs to another container. At node 0 of
  graph 0, whose attribute of slot 0 is set: with the handle of graph 1, and with a handle
  whose validity flag is false, \<^verbatim>\<open>RemoveStrAttr\<close> returns no error and clears the value;
  with the package's invalid handle (slot \<open>-1\<close>) it panics on the index. The sibling
  \<^verbatim>\<open>IsStrAttrSet\<close> reports the foreign handle as an error.
\<close>

theorem RemoveStrAttr_ignores_its_checks:
  "snd (NewNodeStrAttr (fst (projr (NewGraph demo_node spec111))) 0) = (own_attr, None) \<and>
   Node_IsStrAttrSet demo_two_graphs 0 own_attr = Inr (True, None) \<and>
   Node_IsStrAttrSet demo_two_graphs 0 foreign_attr = Inr (False, Some AttrForeign) \<and>
   (case Node_RemoveStrAttr demo_two_graphs 0 foreign_attr of
      Inl p \<Rightarrow> False
    | Inr (s', err) \<Rightarrow> err = None \<and> s' \<noteq> demo_two_graphs \<and>
        Node_IsStrAttrSet s' 0 own_attr = Inr (False, None)) \<and>
   (case Node_RemoveStrAttr demo_two_graphs 0 (own_attr\<lparr>isValid := False\<rparr>) of
      Inl p \<Rightarrow> False
    | Inr (s', err) \<Rightarrow> err = None \<and> s' \<noteq> demo_two_graphs \<and>
        Node_IsStrAttrSet s' 0 own_attr = Inr (False, None)) \<and>
   Node_RemoveStrAttr demo_two_graphs 0 node_str_attr_invalid = Inl IndexOutOfRange"
  by code_simp

text \<open>
  Claim C6 (not met by the code). Every nest is to own an attribute array of the size of
  the pool. The root nest made by \<^verbatim>\<open>newNestTree\<close> has an array of length 0, so setting the
  attribute of the freshly allocated slot 0 on the root panics on the index; on a nest made
  by \<^verbatim>\<open>NewNest\<close>, which allocates the array, the same call succeeds and the value reads back.
\<close>

theorem root_nest_has_no_attribute_array:
  "NewNestStrAttr demo_nest 0 =
     (upd_nestTree 0 (\<lambda>t. t\<lparr>nestStrAttrAllocMap := [True]\<rparr>) demo_nest,
      \<lparr>attr_num = 0, is_valid = True, nestTree_Attr = Some 0\<rparr>, None) \<and>
   rootNest (nestTrees demo_nest ! 0) = Some 0 \<and>
   strAttrs_Nest (nests demo_nest ! 0) = [] \<and>
   strAttrs_Nest (nests demo_nest ! 1) = [strAttrVal_zero] \<and>
   Nest_SetStrAttrVal (fst (NewNestStrAttr demo_nest 0)) 0
       \<lparr>attr_num = 0, is_valid = True, nestTree_Attr = Some 0\<rparr> ''x'' = Inl IndexOutOfRange \<and>
   (case Nest_SetStrAttrVal (fst (NewNestStrAttr demo_nest 0)) 1
       \<lparr>attr_num = 0, is_valid = True, nestTree_Attr = Some 0\<rparr> ''x'' of
      Inl p \<Rightarrow> False
    | Inr (s', err) \<Rightarrow> err = None \<and>
        Nest_GetStrAttrVal s' 1 \<lparr>attr_num = 0, is_valid = True, nestTree_Attr = Some 0\<rparr> = Inr (''x'', None))"
  by code_simp

text \<open>
  Claim C9, as stated, fails: nest 1 is neither the root nor the first nest in preorder,
  but it is the last one, so \<^verbatim>\<open>GetNextNest\<close> returns \<^verbatim>\<open>nil\<close> and
  \<^verbatim>\<open>GetPrevNest\<close> of that does not give nest 1 back.
\<close>

theorem prev_of_next_last_nest_counterexample:
  "rootNest (nestTrees demo_nest ! 0) = Some 0 \<and> GetNextNest demo_nest 0 = Some (Some 1) \<and>
   GetNextNest demo_nest 1 = Some None \<and>
   prev_of_next demo_nest 1 \<noteq> Some (Inr (Some 1))"
  by code_simp

section \<open>Every operation preserves consistency\<close>

lemma nth_list_update_total:
  "(xs[r := v]) ! i = (if i = r \<and> r < length xs then v else xs ! i)"
  by (cases "r < length xs") (auto simp: nth_list_update list_update_beyond)

lemma NewNest_fields:
  assumes "NewNest s nt = Inr (s', r)" and "rootNest (nestTrees s ! nt) = Some root"
    and "root < length (nests s)" and "live_opt (firstChildNest (nests s ! root)) (nests s)"
  shows "r = length (nests s)"
    and "graphs s' = graphs s" and "nodes s' = nodes s" and "edges s' = edges s"
    and "length (nestTrees s') = length (nestTrees s)"
    and "baseGraph (nestTrees s' ! t) = baseGraph (nestTrees s ! t)"
    and "rootNest (nestTrees s' ! t) = rootNest (nestTrees s ! t)"
    and "length (nestStrAttrAllocMap (nestTrees s' ! t)) = length (nestStrAttrAllocMap (nestTrees s ! t))"
    and "length (nests s') = Suc (length (nests s))"
    and "i \<le> length (nests s) \<Longrightarrow> nestTree_Nest (nests s' ! i) = (if i = r then Some nt else nestTree_Nest (nests s ! i))"
    and "i \<le> length (nests s) \<Longrightarrow> level (nests s' ! i) = (if i = r then level (nests s ! root) + 1 else level (nests s ! i))"
    and "i \<le> length (nests s) \<Longrightarrow> parentNest (nests s' ! i) = (if i = r then Some root else parentNest (nests s ! i))"
    and "i \<le> length (nests s) \<Longrightarrow> firstChildNest (nests s' ! i) =
           (if i = r then None else if i = root then Some r else firstChildNest (nests s ! i))"
    and "i \<le> length (nests s) \<Longrightarrow> lastChildNest (nests s' ! i) =
           (if i = r then None else if i = root \<and> firstChildNest (nests s ! root) = None then Some r
            else lastChildNest (nests s ! i))"
    and "i \<le> length (nests s) \<Longrightarrow> nextSiblingNest (nests s' ! i) =
           (if i = r then firstChildNest (nests s ! root) else nextSiblingNest (nests s ! i))"
    and "i \<le> length (nests s) \<Longrightarrow> prevSiblingNest (nests s' ! i) =
           (if i = r then None else if firstChildNest (nests s ! root) = Some i then Some r
            else prevSiblingNest (nests s ! i))"
    and "i < length (nests s) \<Longrightarrow> length (strAttrs_Nest (nests s' ! i)) = length (strAttrs_Nest (nests s ! i))"
    and "baseGraph (nestTrees s ! nt) = Some g \<Longrightarrow> length (strAttrs_Nest (nests s' ! length (nests s))) = nat (NestStrAttrNum (attrSpec (graphs s ! g)))"
  using assms
  by (auto simp: NewNest_def Let_def nth_list_update_total nth_append tree_core_def live_opt_def split: option.splits if_splits)

lemma linkedD:
  assumes "linked s"
  shows "g < length (graphs s) \<Longrightarrow> graph_ok s g"
    and "t < length (nestTrees s) \<Longrightarrow> tree_ok s t"
    and "r < length (nests s) \<Longrightarrow> nest_ok s r"
    and "n < length (nodes s) \<Longrightarrow> node_ok s n"
    and "e < length (edges s) \<Longrightarrow> edge_ok s e"
  using assms by (auto simp: linked_def frame_ok_def)

lemma frame_okD:
  assumes "frame_ok s"
  shows "g < length (graphs s) \<Longrightarrow> graph_ok s g"
    and "t < length (nestTrees s) \<Longrightarrow> tree_ok s t"
    and "r < length (nests s) \<Longrightarrow> nest_ok s r"
    and "n < length (nodes s) \<Longrightarrow> node_ok s n"
  using assms by (auto simp: frame_ok_def)

lemma NewNest_frame_ok:
  assumes fr: "frame_ok s" and nt: "nt < length (nestTrees s)" and new: "NewNest s nt = Inr (s', r)"
  shows "frame_ok s'"
proof -
  from frame_okD(2)[OF fr nt] obtain g root where
    T: "baseGraph (nestTrees s ! nt) = Some g" "g < length (graphs s)"
      "rootNest (nestTrees s ! nt) = Some root" "root < length (nests s)"
      "nestTree_Nest (nests s ! root) = Some nt" "parentNest (nests s ! root) = None"
      "level (nests s ! root) = 0"
      "nextSiblingNest (nests s ! root) = None" "prevSiblingNest (nests s ! root) = None"
      "\<forall>c. firstChildNest (nests s ! root) = Some c \<longrightarrow>
           c < length (nests s) \<and> prevSiblingNest (nests s ! c) = None \<and>
           parentNest (nests s ! c) = Some root"
    unfolding tree_ok_def by blast
  have live: "live_opt (firstChildNest (nests s ! root)) (nests s)"
    using T(10) by (auto simp: live_opt_def split: option.splits)
  note F = NewNest_fields[OF new T(3) T(4) live]
  have G: "graph_ok s' g'" if "g' < length (graphs s)" for g'
    using frame_okD(1)[OF fr that] by (simp add: graph_ok_def F)
  have Tr: "tree_ok s' t" if t: "t < length (nestTrees s)" for t
  proof -
    from frame_okD(2)[OF fr t] obtain gt rt where
      Tt: "baseGraph (nestTrees s ! t) = Some gt" "gt < length (graphs s)"
        "nestTree_Graph (graphs s ! gt) = Some t"
        "length (nestStrAttrAllocMap (nestTrees s ! t)) = nat (NestStrAttrNum (attrSpec (graphs s ! gt)))"
        "rootNest (nestTrees s ! t) = Some rt" "rt < length (nests s)"
        "nestTree_Nest (nests s ! rt) = Some t" "parentNest (nests s ! rt) = None"
        "level (nests s ! rt) = 0"
        "nextSiblingNest (nests s ! rt) = None" "prevSiblingNest (nests s ! rt) = None"
        "length (strAttrs_Nest (nests s ! rt)) = 0"
        "\<forall>c. firstChildNest (nests s ! rt) = Some c \<longrightarrow>
             c < length (nests s) \<and> prevSiblingNest (nests s ! c) = None \<and>
             parentNest (nests s ! c) = Some rt"
      unfolding tree_ok_def by blast
    have notfc: "firstChildNest (nests s ! root) \<noteq> Some rt"
      using T(10) Tt(8) by auto
    have ch: "\<forall>c. firstChildNest (nests s' ! rt) = Some c \<longrightarrow>
             c < length (nests s') \<and> prevSiblingNest (nests s' ! c) = None \<and>
             parentNest (nests s' ! c) = Some rt"
    proof (intro allI impI)
      fix c assume c: "firstChildNest (nests s' ! rt) = Some c"
      show "c < length (nests s') \<and> prevSiblingNest (nests s' ! c) = None \<and>
             parentNest (nests s' ! c) = Some rt"
      proof (cases "rt = root")
        case True
        with c Tt(6) have "c = r" by (simp add: F)
        with True show ?thesis by (simp add: F)
      next
        case False
        with c Tt(6) have c0: "firstChildNest (nests s ! rt) = Some c" by (simp add: F)
        with Tt(13) have c1: "c < length (nests s)" "prevSiblingNest (nests s ! c) = None"
          "parentNest (nests s ! c) = Some rt" by auto
        have "firstChildNest (nests s ! root) \<noteq> Some c"
          using T(10) c1(3) False by auto
        with c1 show ?thesis by (simp add: F)
      qed
    qed
    show ?thesis
      unfolding tree_ok_def
      using Tt(1-12) notfc ch by (simp add: F del: length_0_conv)
  qed
  have N: "nest_ok s' i" if i: "i < Suc (length (nests s))" for i
  proof (cases "i = r")
    case True
    have "\<forall>q. firstChildNest (nests s ! root) = Some q \<longrightarrow>
           q < length (nests s') \<and> prevSiblingNest (nests s' ! q) = Some r"
      using T(10) by (auto simp: F)
    then show ?thesis
      unfolding nest_ok_def using True T nt by (auto simp: F)
  next
    case False
    with i have i': "i < length (nests s)" by (simp add: F)
    from frame_okD(3)[OF fr i'] obtain t g' rt where
      Ni: "nestTree_Nest (nests s ! i) = Some t" "t < length (nestTrees s)"
        "baseGraph (nestTrees s ! t) = Some g'" "g' < length (graphs s)"
        "rootNest (nestTrees s ! t) = Some rt"
        "i = rt \<or>
           parentNest (nests s ! i) = Some rt \<and> level (nests s ! i) = 1 \<and>
           firstChildNest (nests s ! i) = None \<and> lastChildNest (nests s ! i) = None \<and>
           length (strAttrs_Nest (nests s ! i)) = nat (NestStrAttrNum (attrSpec (graphs s ! g')))"
        "\<forall>q. nextSiblingNest (nests s ! i) = Some q \<longrightarrow>
           q < length (nests s) \<and> prevSiblingNest (nests s ! q) = Some i"
      unfolding nest_ok_def by blast
    have rooti: "i = root \<Longrightarrow> i = rt" using Ni(1,5) T(3,5) by auto
    have sib: "\<forall>q. nextSiblingNest (nests s' ! i) = Some q \<longrightarrow>
           q < length (nests s') \<and> prevSiblingNest (nests s' ! q) = Some i"
    proof (intro allI impI)
      fix q assume "nextSiblingNest (nests s' ! i) = Some q"
      with False i' have "nextSiblingNest (nests s ! i) = Some q" by (simp add: F)
      with Ni(7) have q: "q < length (nests s)" "prevSiblingNest (nests s ! q) = Some i" by auto
      then have "firstChildNest (nests s ! root) \<noteq> Some q" using T(10) by auto
      with q show "q < length (nests s') \<and> prevSiblingNest (nests s' ! q) = Some i"
        by (simp add: F)
    qed
    show ?thesis
      unfolding nest_ok_def
      using False i' Ni(1-6) sib rooti by (auto simp: F)
  qed
  have D: "node_ok s' n" if "n < length (nodes s)" for n
    using frame_okD(4)[OF fr that] by (auto simp: node_ok_def F)
  show ?thesis
    unfolding frame_ok_def using G Tr N D by (simp add: F)
qed

text \<open>
  Edges keep their consistency when the objects they look at keep the fields they look at.
\<close>

lemma edge_ok_transfer:
  assumes fr: "frame_ok s"
    and e: "e < length (edges s)" and ok: "edge_ok s e"
    and len: "length (graphs s) \<le> length (graphs s')" "length (nests s) \<le> length (nests s')"
      "length (nodes s) \<le> length (nodes s')"
    and gr: "\<And>g. g < length (graphs s) \<Longrightarrow> nestTree_Graph (graphs s' ! g) = nestTree_Graph (graphs s ! g)"
    and ne: "\<And>r. r < length (nests s) \<Longrightarrow> nestTree_Nest (nests s' ! r) = nestTree_Nest (nests s ! r)"
    and no: "\<And>n. n < length (nodes s) \<Longrightarrow> graph_Node (nodes s' ! n) = graph_Node (nodes s ! n)"
    and out: "\<And>n. n < length (nodes s) \<Longrightarrow> firstOutcomingEdge (nodes s ! n) \<noteq> None \<Longrightarrow>
        firstOutcomingEdge (nodes s' ! n) \<noteq> None"
    and inc: "\<And>n. n < length (nodes s) \<Longrightarrow> firstIncomingEdge (nodes s ! n) \<noteq> None \<Longrightarrow>
        firstIncomingEdge (nodes s' ! n) \<noteq> None"
    and ed: "edge_core (edges s' ! e) = edge_core (edges s ! e)"
  shows "edge_ok s' e"
proof -
  from ed have E: "graph_Edge (edges s' ! e) = graph_Edge (edges s ! e)"
    "srcNode (edges s' ! e) = srcNode (edges s ! e)" "dstNode (edges s' ! e) = dstNode (edges s ! e)"
    "nest_Edge (edges s' ! e) = nest_Edge (edges s ! e)"
    by (simp_all add: edge_core_def)
  from ok obtain g a b c where
    K: "graph_Edge (edges s ! e) = Some g" "g < length (graphs s)"
      "srcNode (edges s ! e) = Some a" "a < length (nodes s)"
      "dstNode (edges s ! e) = Some b" "b < length (nodes s)"
      "graph_Node (nodes s ! a) = Some g" "graph_Node (nodes s ! b) = Some g"
      "firstOutcomingEdge (nodes s ! a) \<noteq> None" "firstIncomingEdge (nodes s ! b) \<noteq> None"
      "nest_Edge (edges s ! e) = Some c" "c < length (nests s)"
      "nestTree_Nest (nests s ! c) = nestTree_Graph (graphs s ! g)"
    unfolding edge_ok_def edge_ends_ok_def edge_nest_ok_def by auto
  show "edge_ok s' e"
    unfolding edge_ok_def edge_ends_ok_def edge_nest_ok_def
    using K len out[OF K(4) K(9)] inc[OF K(6) K(10)] by (simp add: E gr ne no)
qed

lemma edge_attributed_transfer:
  assumes fr: "frame_ok s"
    and e: "e < length (edges s)" and ok: "edge_ok s e" and at: "edge_attributed s e"
    and tr: "\<And>t. t < length (nestTrees s) \<Longrightarrow> rootNest (nestTrees s' ! t) = rootNest (nestTrees s ! t)"
    and ne: "\<And>r. r < length (nests s) \<Longrightarrow> nestTree_Nest (nests s' ! r) = nestTree_Nest (nests s ! r)"
    and nn: "\<And>n. n < length (nodes s) \<Longrightarrow>
        firstOutcomingEdge (nodes s ! n) \<noteq> None \<or> firstIncomingEdge (nodes s ! n) \<noteq> None \<Longrightarrow>
        nest_Node (nodes s' ! n) = nest_Node (nodes s ! n)"
    and ed: "edge_core (edges s' ! e) = edge_core (edges s ! e)"
  shows "edge_attributed s' e"
proof -
  from ed have E: "graph_Edge (edges s' ! e) = graph_Edge (edges s ! e)"
    "srcNode (edges s' ! e) = srcNode (edges s ! e)" "dstNode (edges s' ! e) = dstNode (edges s ! e)"
    "nest_Edge (edges s' ! e) = nest_Edge (edges s ! e)"
    by (simp_all add: edge_core_def)
  from ok obtain g a b c where
    K: "graph_Edge (edges s ! e) = Some g" "g < length (graphs s)"
      "srcNode (edges s ! e) = Some a" "a < length (nodes s)"
      "dstNode (edges s ! e) = Some b" "b < length (nodes s)"
      "graph_Node (nodes s ! a) = Some g" "graph_Node (nodes s ! b) = Some g"
      "firstOutcomingEdge (nodes s ! a) \<noteq> None" "firstIncomingEdge (nodes s ! b) \<noteq> None"
      "nest_Edge (edges s ! e) = Some c"
    unfolding edge_ok_def edge_ends_ok_def edge_nest_ok_def by auto
  from at obtain na nb where
    A: "nest_Node (nodes s ! a) = Some na" "nest_Node (nodes s ! b) = Some nb"
      "nest_Edge (edges s ! e) = meet_nest s na nb"
    unfolding edge_attributed_def using K(3,5) by auto
  from frame_okD(4)[OF fr K(4)] A(1) obtain ta where
    na: "na < length (nests s)" "nestTree_Nest (nests s ! na) = Some ta" "ta < length (nestTrees s)"
    unfolding node_ok_def using K(7) frame_okD(1)[OF fr K(2)] by (auto simp: graph_ok_def)
  have "meet_nest s' na nb = meet_nest s na nb"
    using na by (simp add: meet_nest_def ne tr)
  then show "edge_attributed s' e"
    unfolding edge_attributed_def
    using K A nn[OF K(4)] nn[OF K(6)] by (simp add: E)
qed

lemma edges_transfer:
  assumes fr: "frame_ok s"
    and e: "e < length (edges s)" and ok: "edge_ok s e"
    and len: "length (graphs s) \<le> length (graphs s')" "length (nests s) \<le> length (nests s')"
      "length (nodes s) \<le> length (nodes s')"
    and gr: "\<And>g. g < length (graphs s) \<Longrightarrow> nestTree_Graph (graphs s' ! g) = nestTree_Graph (graphs s ! g)"
    and tr: "\<And>t. t < length (nestTrees s) \<Longrightarrow> rootNest (nestTrees s' ! t) = rootNest (nestTrees s ! t)"
    and ne: "\<And>r. r < length (nests s) \<Longrightarrow> nestTree_Nest (nests s' ! r) = nestTree_Nest (nests s ! r)"
    and no: "\<And>n. n < length (nodes s) \<Longrightarrow> graph_Node (nodes s' ! n) = graph_Node (nodes s ! n)"
    and out: "\<And>n. n < length (nodes s) \<Longrightarrow> firstOutcomingEdge (nodes s ! n) \<noteq> None \<Longrightarrow>
        firstOutcomingEdge (nodes s' ! n) \<noteq> None \<and> nest_Node (nodes s' ! n) = nest_Node (nodes s ! n)"
    and inc: "\<And>n. n < length (nodes s) \<Longrightarrow> firstIncomingEdge (nodes s ! n) \<noteq> None \<Longrightarrow>
        firstIncomingEdge (nodes s' ! n) \<noteq> None \<and> nest_Node (nodes s' ! n) = nest_Node (nodes s ! n)"
    and ed: "edge_core (edges s' ! e) = edge_core (edges s ! e)"
  shows "edge_ok s' e" and "edge_attributed s e \<Longrightarrow> edge_attributed s' e"
proof -
  show "edge_ok s' e"
    using out inc by (intro edge_ok_transfer[OF fr e ok len gr ne no _ _ ed]) blast+
  assume "edge_attributed s e"
  then show "edge_attributed s' e"
    using out inc by (intro edge_attributed_transfer[OF fr e ok _ tr ne _ ed]) blast+
qed

lemma NewNest_consistent:
  assumes co: "consistent s" and nt: "nt < length (nestTrees s)" and new: "NewNest s nt = Inr (s', r)"
  shows "consistent s'"
proof -
  from co have fr: "frame_ok s" and li: "linked s" by (simp_all add: consistent_def linked_def)
  from frame_okD(2)[OF fr nt] obtain root where
    T: "rootNest (nestTrees s ! nt) = Some root" "root < length (nests s)"
      "\<forall>c. firstChildNest (nests s ! root) = Some c \<longrightarrow> c < length (nests s)"
    unfolding tree_ok_def by blast
  have live: "live_opt (firstChildNest (nests s ! root)) (nests s)"
    using T(3) by (auto simp: live_opt_def split: option.splits)
  note F = NewNest_fields[OF new T(1) T(2) live]
  have "edge_ok s' e \<and> edge_attributed s' e" if e: "e < length (edges s)" for e
  proof -
    have ok: "edge_ok s e" and at: "edge_attributed s e"
      using co e by (simp_all add: consistent_def linked_def)
    show ?thesis
      using edges_transfer[OF fr e ok, of s'] at by (simp add: F)
  qed
  with NewNest_frame_ok[OF fr nt new] show ?thesis
    by (simp add: consistent_def linked_def F)
qed

lemma core_fields:
  "graph_core G' = graph_core G \<Longrightarrow> nestTree_Graph G' = nestTree_Graph G \<and> attrSpec G' = attrSpec G \<and>
     length (graphStrAttrAllocMap G') = length (graphStrAttrAllocMap G) \<and>
     length (nodeStrAttrAllocMap G') = length (nodeStrAttrAllocMap G) \<and>
     length (strAttrs_Graph G') = length (strAttrs_Graph G)"
  "tree_core T' = tree_core T \<Longrightarrow> baseGraph T' = baseGraph T \<and> rootNest T' = rootNest T \<and>
     length (nestStrAttrAllocMap T') = length (nestStrAttrAllocMap T)"
  "nest_core N' = nest_core N \<Longrightarrow> nestTree_Nest N' = nestTree_Nest N \<and> level N' = level N \<and>
     parentNest N' = parentNest N \<and> firstChildNest N' = firstChildNest N \<and>
     lastChildNest N' = lastChildNest N \<and> nextSiblingNest N' = nextSiblingNest N \<and>
     prevSiblingNest N' = prevSiblingNest N \<and> length (strAttrs_Nest N') = length (strAttrs_Nest N)"
  "node_core D' = node_core D \<Longrightarrow> graph_Node D' = graph_Node D \<and> nest_Node D' = nest_Node D \<and>
     length (strAttrs_Node D') = length (strAttrs_Node D) \<and>
     firstIncomingEdge D' = firstIncomingEdge D \<and> firstOutcomingEdge D' = firstOutcomingEdge D"
  "edge_core E' = edge_core E \<Longrightarrow> graph_Edge E' = graph_Edge E \<and> srcNode E' = srcNode E \<and>
     dstNode E' = dstNode E \<and> nest_Edge E' = nest_Edge E"
  by (simp_all add: core_defs)

text \<open>
  Objects keep their consistency when the heap grows and the old objects keep the fields
  that consistency depends on.
\<close>

lemma frame_transfer:
  assumes len: "length (graphs s) \<le> length (graphs s')" "length (nestTrees s) \<le> length (nestTrees s')"
      "length (nests s) \<le> length (nests s')" "length (edges s) \<le> length (edges s')"
    and gr: "\<And>i. i < length (graphs s) \<Longrightarrow> graph_core (graphs s' ! i) = graph_core (graphs s ! i)"
    and tr: "\<And>i. i < length (nestTrees s) \<Longrightarrow> tree_core (nestTrees s' ! i) = tree_core (nestTrees s ! i)"
    and ne: "\<And>i. i < length (nests s) \<Longrightarrow> nest_core (nests s' ! i) = nest_core (nests s ! i)"
  shows "g < length (graphs s) \<Longrightarrow> graph_ok s g \<Longrightarrow> graph_ok s' g"
    and "t < length (nestTrees s) \<Longrightarrow> tree_ok s t \<Longrightarrow> tree_ok s' t"
    and "r < length (nests s) \<Longrightarrow> nest_ok s r \<Longrightarrow> nest_ok s' r"
    and "n < length (nodes s) \<Longrightarrow> node_core (nodes s' ! n) = node_core (nodes s ! n) \<Longrightarrow>
         node_ok s n \<Longrightarrow> node_ok s' n"
proof -
  note G = core_fields(1)[OF gr] and T = core_fields(2)[OF tr] and N = core_fields(3)[OF ne]
  show "g < length (graphs s) \<Longrightarrow> graph_ok s g \<Longrightarrow> graph_ok s' g"
    unfolding graph_ok_def using len by (auto simp: G T)
  show "t < length (nestTrees s) \<Longrightarrow> tree_ok s t \<Longrightarrow> tree_ok s' t"
    unfolding tree_ok_def using len by (auto simp: G T N simp del: length_0_conv)
  show "r < length (nests s) \<Longrightarrow> nest_ok s r \<Longrightarrow> nest_ok s' r"
    unfolding nest_ok_def using len by (auto simp: G T N)
  show "n < length (nodes s) \<Longrightarrow> node_core (nodes s' ! n) = node_core (nodes s ! n) \<Longrightarrow>
         node_ok s n \<Longrightarrow> node_ok s' n"
    unfolding node_ok_def live_opt_def using len
    by (auto simp: G T N dest!: core_fields(4) split: option.splits)
qed

lemma NewGraph_fields:
  assumes "NewGraph s spec = Inr (s', g)"
  shows "g = length (graphs s)" and "nodes s' = nodes s" and "edges s' = edges s"
    and "length (graphs s') = Suc (length (graphs s))"
    and "length (nestTrees s') = Suc (length (nestTrees s))"
    and "length (nests s') = Suc (length (nests s))"
    and "i < length (graphs s) \<Longrightarrow> graphs s' ! i = graphs s ! i"
    and "i < length (nestTrees s) \<Longrightarrow> nestTrees s' ! i = nestTrees s ! i"
    and "i < length (nests s) \<Longrightarrow> nests s' ! i = nests s ! i"
    and "graph_core (graphs s' ! length (graphs s)) =
           (Some (length (nestTrees s)), spec, nat (GraphStrAttrNum spec), nat (NodeStrAttrNum spec),
            nat (GraphStrAttrNum spec))"
    and "tree_core (nestTrees s' ! length (nestTrees s)) =
           (Some (length (graphs s)), Some (length (nests s)), nat (NestStrAttrNum spec))"
    and "nest_core (nests s' ! length (nests s)) =
           (Some (length (nestTrees s)), 0, None, None, None, None, None, 0)"
    and "0 \<le> GraphStrAttrNum spec" and "0 \<le> NodeStrAttrNum spec" and "0 \<le> NestStrAttrNum spec"
  using assms
  by (auto simp: NewGraph_def newNestTree_def Let_def nth_list_update_total nth_append core_defs
        NT_ROOT_NEST_LEVEL_def split: option.splits if_splits sum.splits)

lemma NewGraph_consistent:
  assumes co: "consistent s" and new: "NewGraph s spec = Inr (s', g)"
  shows "consistent s'"
proof -
  from co have fr: "frame_ok s" by (simp add: consistent_def linked_def)
  note F = NewGraph_fields[OF new]
  note tr = frame_transfer[of s s']
  have G: "graph_ok s' i" if "i < Suc (length (graphs s))" for i
  proof (cases "i = length (graphs s)")
    case True
    then show ?thesis
      using F(10-15) by (simp add: graph_ok_def F(4-6) core_defs)
  next
    case False
    with that have "i < length (graphs s)" by simp
    then show ?thesis using tr(1)[of i] frame_okD(1)[OF fr] by (simp add: F)
  qed
  have T: "tree_ok s' i" if "i < Suc (length (nestTrees s))" for i
  proof (cases "i = length (nestTrees s)")
    case True
    then show ?thesis
      using F(10-15) by (simp add: tree_ok_def F(4-6) core_defs)
  next
    case False
    with that have "i < length (nestTrees s)" by simp
    then show ?thesis using tr(2)[of i] frame_okD(2)[OF fr] by (simp add: F)
  qed
  have N: "nest_ok s' i" if "i < Suc (length (nests s))" for i
  proof (cases "i = length (nests s)")
    case True
    then show ?thesis
      using F(10-15) by (simp add: nest_ok_def F(4-6) core_defs)
  next
    case False
    with that have "i < length (nests s)" by simp
    then show ?thesis using tr(3)[of i] frame_okD(3)[OF fr] by (simp add: F)
  qed
  have D: "node_ok s' i" if "i < length (nodes s)" for i
    using tr(4)[of i] frame_okD(4)[OF fr] that by (simp add: F)
  have "edge_ok s' e \<and> edge_attributed s' e" if e: "e < length (edges s)" for e
  proof -
    have ok: "edge_ok s e" and at: "edge_attributed s e"
      using co e by (simp_all add: consistent_def linked_def)
    show ?thesis
      using edges_transfer[OF fr e ok, of s'] at by (simp add: F)
  qed
  then show ?thesis
    using G T N D by (simp add: consistent_def linked_def frame_ok_def F)
qed

lemma NewNode_same_links:
  assumes "NewNode s g = Inr (s', n)"
  shows "\<exists>nt root. nestTree_Graph (graphs s ! g) = Some nt \<and> rootNest (nestTrees s ! nt) = Some root \<and>
           n = length (nodes s) \<and> same_links (NewNode_alloc s g root) s'"
  using assms
  by (auto simp: NewNode_def Let_def core_defs split: option.splits if_splits sum.splits
        dest!: addNode_same_links intro!: same_links_step)

lemma NewNode_alloc_consistent:
  assumes co: "consistent s" and g: "g < length (graphs s)"
    and nt: "nestTree_Graph (graphs s ! g) = Some nt" and root: "rootNest (nestTrees s ! nt) = Some root"
  shows "consistent (NewNode_alloc s g root)"
proof -
  let ?s = "NewNode_alloc s g root"
  from co have fr: "frame_ok s" by (simp add: consistent_def linked_def)
  have F: "graphs ?s = graphs s" "nestTrees ?s = nestTrees s" "nests ?s = nests s" "edges ?s = edges s"
    "length (nodes ?s) = Suc (length (nodes s))"
    "\<And>i. i < length (nodes s) \<Longrightarrow> nodes ?s ! i = nodes s ! i"
    "node_core (nodes ?s ! length (nodes s)) =
       (Some g, Some root, nat (NodeStrAttrNum (attrSpec (graphs s ! g))), None, None)"
    by (simp_all add: NewNode_alloc_def nth_append core_defs)
  note tr = frame_transfer[of s ?s]
  from frame_okD(1)[OF fr g] nt have t: "nt < length (nestTrees s)" "0 \<le> NodeStrAttrNum (attrSpec (graphs s ! g))"
    by (auto simp: graph_ok_def)
  from frame_okD(2)[OF fr t(1)] root have r: "root < length (nests s)" "nestTree_Nest (nests s ! root) = Some nt"
    by (auto simp: tree_ok_def)
  have D: "node_ok ?s i" if "i < Suc (length (nodes s))" for i
  proof (cases "i = length (nodes s)")
    case True
    then show ?thesis
      using F(7) g nt r t by (simp add: node_ok_def F(1-4) core_defs live_opt_def)
  next
    case False
    with that have "i < length (nodes s)" by simp
    then show ?thesis using tr(4)[of i] frame_okD(4)[OF fr] by (simp add: F)
  qed
  have fr': "frame_ok ?s"
    using tr(1-3) frame_okD(1-3)[OF fr] D by (simp add: frame_ok_def F)
  have "edge_ok ?s e \<and> edge_attributed ?s e" if e: "e < length (edges s)" for e
  proof -
    have ok: "edge_ok s e" and at: "edge_attributed s e"
      using co e by (simp_all add: consistent_def linked_def)
    show ?thesis
      using edges_transfer[OF fr e ok, of ?s] at by (simp add: F)
  qed
  with fr' show ?thesis
    by (simp add: consistent_def linked_def F)
qed

lemma NewNode_consistent:
  assumes co: "consistent s" and g: "g < length (graphs s)" and new: "NewNode s g = Inr (s', n)"
  shows "consistent s'"
proof -
  from NewNode_same_links[OF new] obtain nt root where
    *: "nestTree_Graph (graphs s ! g) = Some nt" "rootNest (nestTrees s ! nt) = Some root"
       "same_links (NewNode_alloc s g root) s'" by blast
  from NewNode_alloc_consistent[OF co g *(1,2)] same_links_consistent[OF *(3)]
  show ?thesis by simp
qed

lemma calc_loops_flat:
  assumes root: "level (nests s ! root) = 0"
    and a: "a = root \<or> parentNest (nests s ! a) = Some root \<and> level (nests s ! a) = 1"
    and b: "b = root \<or> parentNest (nests s ! b) = Some root \<and> level (nests s ! b) = 1"
  shows "calc_raise_src s a b = Some (Inr (if level (nests s ! a) > level (nests s ! b) then root else a))"
    and "calc_raise_dst s b a = Some (Inr (if level (nests s ! b) > level (nests s ! a) then root else b))"
    and "level (nests s ! a) = level (nests s ! b) \<Longrightarrow>
         calc_raise_both s b a = Some (Inr (if b = a then a else root))"
proof -
  have r1: "calc_raise_src s root b = Some (Inr root)"
    using root b by (subst calc_raise_src.simps) auto
  show "calc_raise_src s a b = Some (Inr (if level (nests s ! a) > level (nests s ! b) then root else a))"
    using a b root r1 by (subst calc_raise_src.simps) auto
  have r2: "calc_raise_dst s root a = Some (Inr root)"
    using root a by (subst calc_raise_dst.simps) auto
  show "calc_raise_dst s b a = Some (Inr (if level (nests s ! b) > level (nests s ! a) then root else b))"
    using a b root r2 by (subst calc_raise_dst.simps) auto
  have r3: "calc_raise_both s root root = Some (Inr root)"
    by (subst calc_raise_both.simps) simp
  show "level (nests s ! a) = level (nests s ! b) \<Longrightarrow>
         calc_raise_both s b a = Some (Inr (if b = a then a else root))"
    using a b root r3 by (subst calc_raise_both.simps) auto
qed

lemma calc_nest_frame:
  assumes fr: "frame_ok s"
    and E: "graph_Edge (edges s ! e) = Some g" "g < length (graphs s)"
      "srcNode (edges s ! e) = Some a" "a < length (nodes s)"
      "dstNode (edges s ! e) = Some b" "b < length (nodes s)"
      "graph_Node (nodes s ! a) = Some g" "graph_Node (nodes s ! b) = Some g"
  shows "\<exists>na nb c. nest_Node (nodes s ! a) = Some na \<and> nest_Node (nodes s ! b) = Some nb \<and>
           calc_nest s e = Some (Inr c) \<and> meet_nest s na nb = Some c \<and> c < length (nests s) \<and>
           nestTree_Nest (nests s ! c) = nestTree_Graph (graphs s ! g)"
proof -
  from frame_okD(1)[OF fr E(2)] obtain nt where
    G: "nestTree_Graph (graphs s ! g) = Some nt" "nt < length (nestTrees s)"
       "baseGraph (nestTrees s ! nt) = Some g"
    by (auto simp: graph_ok_def)
  from frame_okD(2)[OF fr G(2)] obtain root where
    T: "rootNest (nestTrees s ! nt) = Some root" "root < length (nests s)"
       "nestTree_Nest (nests s ! root) = Some nt" "level (nests s ! root) = 0"
       "parentNest (nests s ! root) = None"
    by (auto simp: tree_ok_def)
  from frame_okD(4)[OF fr E(4)] E(7) G(1) obtain na where
    A: "nest_Node (nodes s ! a) = Some na" "na < length (nests s)" "nestTree_Nest (nests s ! na) = Some nt"
    by (auto simp: node_ok_def)
  from frame_okD(4)[OF fr E(6)] E(8) G(1) obtain nb where
    B: "nest_Node (nodes s ! b) = Some nb" "nb < length (nests s)" "nestTree_Nest (nests s ! nb) = Some nt"
    by (auto simp: node_ok_def)
  have sa: "na = root \<or> parentNest (nests s ! na) = Some root \<and> level (nests s ! na) = 1"
    using frame_okD(3)[OF fr A(2)] A(3) T(1) by (auto simp: nest_ok_def)
  have sb: "nb = root \<or> parentNest (nests s ! nb) = Some root \<and> level (nests s ! nb) = 1"
    using frame_okD(3)[OF fr B(2)] B(3) T(1) by (auto simp: nest_ok_def)
  define a1 where "a1 = (if level (nests s ! na) > level (nests s ! nb) then root else na)"
  define b1 where "b1 = (if level (nests s ! nb) > level (nests s ! a1) then root else nb)"
  have sa1: "a1 = root \<or> parentNest (nests s ! a1) = Some root \<and> level (nests s ! a1) = 1"
    using sa by (auto simp: a1_def)
  have sb1: "b1 = root \<or> parentNest (nests s ! b1) = Some root \<and> level (nests s ! b1) = 1"
    using sb by (auto simp: b1_def)
  have l1: "calc_raise_src s na nb = Some (Inr a1)"
    unfolding a1_def by (rule calc_loops_flat(1)[OF T(4) sa sb])
  have l2: "calc_raise_dst s nb a1 = Some (Inr b1)"
    unfolding b1_def by (rule calc_loops_flat(2)[OF T(4) sa1 sb])
  have lev: "level (nests s ! a1) = level (nests s ! b1)"
    using sa sb T(4) by (auto simp: a1_def b1_def)
  have l3: "calc_raise_both s b1 a1 = Some (Inr (if b1 = a1 then a1 else root))"
    by (rule calc_loops_flat(3)[OF T(4) sa1 sb1 lev])
  define c where "c = (if na = nb then na else root)"
  have c: "(if b1 = a1 then a1 else root) = c"
    using sa sb T(4,5) by (auto simp: a1_def b1_def c_def)
  have "calc_nest s e = Some (Inr c)"
    using E A B G l1 l2 l3 c by (simp add: calc_nest_def)
  moreover have "meet_nest s na nb = Some c"
    using A(3) T(1) by (simp add: meet_nest_def c_def)
  moreover have "c < length (nests s)" "nestTree_Nest (nests s ! c) = nestTree_Graph (graphs s ! g)"
    using A T G by (auto simp: c_def)
  ultimately show ?thesis using A(1) B(1) by blast
qed

lemma edge_list_ops_return:
  assumes "nestTree_Nest (nests s ! n) = Some t" and "baseGraph (nestTrees s ! t) = graph_Edge (edges s ! e)"
  shows "\<exists>s'. removeEdge s n e = Inr s'" and "\<exists>s'. addEdge s n e = Inr s'"
  using assms by (simp_all add: removeEdge_def addEdge_def Let_def)

lemma node_list_ops_return:
  assumes "nestTree_Nest (nests s ! n) = Some t" and "baseGraph (nestTrees s ! t) = graph_Node (nodes s ! d)"
  shows "\<exists>s'. removeNode s n d = Inr s'" and "\<exists>s'. addNode s n d = Inr s'"
  using assms by (simp_all add: removeNode_def addNode_def Let_def)

lemma same_links_set_nest_Edge:
  assumes "same_links s s1"
  shows "same_links (upd_edge e (\<lambda>x. x\<lparr>nest_Edge := v\<rparr>) s) (upd_edge e (\<lambda>x. x\<lparr>nest_Edge := v\<rparr>) s1)"
  using assms unfolding same_links_def core_defs
  by (simp add: nth_list_update_total)

lemma same_links_set_nest_Node:
  assumes "same_links s s1"
  shows "same_links (upd_node n (\<lambda>x. x\<lparr>nest_Node := v\<rparr>) s) (upd_node n (\<lambda>x. x\<lparr>nest_Node := v\<rparr>) s1)"
  using assms unfolding same_links_def core_defs
  by (simp add: nth_list_update_total)

lemma same_links_sym: "same_links s s' \<Longrightarrow> same_links s' s"
  by (simp add: same_links_def)

lemma calcNestAndMoveToIt_frame:
  assumes fr: "frame_ok s" and e: "e < length (edges s)"
    and E: "graph_Edge (edges s ! e) = Some g" "g < length (graphs s)"
      "srcNode (edges s ! e) = Some a" "a < length (nodes s)"
      "dstNode (edges s ! e) = Some b" "b < length (nodes s)"
      "graph_Node (nodes s ! a) = Some g" "graph_Node (nodes s ! b) = Some g"
    and old: "nest_Edge (edges s ! e) = None \<or> edge_nest_ok s e"
  shows "\<exists>na nb c s'. nest_Node (nodes s ! a) = Some na \<and> nest_Node (nodes s ! b) = Some nb \<and>
           meet_nest s na nb = Some c \<and> c < length (nests s) \<and>
           nestTree_Nest (nests s ! c) = nestTree_Graph (graphs s ! g) \<and>
           calcNestAndMoveToIt s e = Some (Inr s') \<and>
           same_links (upd_edge e (\<lambda>x. x\<lparr>nest_Edge := Some c\<rparr>) s) s'"
proof -
  from calc_nest_frame[OF fr E] obtain na nb c where
    C: "nest_Node (nodes s ! a) = Some na" "nest_Node (nodes s ! b) = Some nb"
       "calc_nest s e = Some (Inr c)" "meet_nest s na nb = Some c" "c < length (nests s)"
       "nestTree_Nest (nests s ! c) = nestTree_Graph (graphs s ! g)"
    by blast
  from frame_okD(1)[OF fr E(2)] obtain nt where
    G: "nestTree_Graph (graphs s ! g) = Some nt" "baseGraph (nestTrees s ! nt) = Some g"
    by (auto simp: graph_ok_def)
  let ?f = "\<lambda>x. x\<lparr>nest_Edge := Some c\<rparr>"
  obtain s1 where s1: "(case nest_Edge (edges s ! e) of Some old \<Rightarrow> removeEdge s old e | None \<Rightarrow> Inr s) = Inr s1"
    and l1: "same_links s s1"
  proof (cases "nest_Edge (edges s ! e)")
    case None
    then show ?thesis using that by simp
  next
    case (Some old)
    with old E(1) G have "nestTree_Nest (nests s ! old) = Some nt" by (auto simp: edge_nest_ok_def)
    from edge_list_ops_return(1)[OF this, of e] G(2) E(1) obtain s1 where "removeEdge s old e = Inr s1"
      by auto
    with Some removeEdge_same_links[OF this] that show ?thesis by simp
  qed
  have l2: "same_links (upd_edge e ?f s) (upd_edge e ?f s1)"
    by (rule same_links_set_nest_Edge[OF l1])
  note S2 = same_links_fields[OF l2]
  have "nestTree_Nest (nests (upd_edge e ?f s1) ! c) = Some nt"
    using C(6) G(1) by (simp add: same_links_fields[OF l1])
  moreover have "baseGraph (nestTrees (upd_edge e ?f s1) ! nt) = graph_Edge (edges (upd_edge e ?f s1) ! e)"
    unfolding S2 using G(2) E(1) e by simp
  ultimately obtain s' where s': "addEdge (upd_edge e ?f s1) c e = Inr s'"
    using edge_list_ops_return(2) by blast
  have "same_links (upd_edge e ?f s) s'"
    using l2 addEdge_same_links[OF s'] by (rule same_links_trans)
  moreover have "calcNestAndMoveToIt s e = Some (Inr s')"
    using C(3) s1 s' by (simp add: calcNestAndMoveToIt_def)
  ultimately show ?thesis using C by blast
qed

lemma NewEdge_link_fields:
  shows "graphs (NewEdge_link s g a b) = graphs s"
    and "nestTrees (NewEdge_link s g a b) = nestTrees s"
    and "nests (NewEdge_link s g a b) = nests s"
    and "length (nodes (NewEdge_link s g a b)) = length (nodes s)"
    and "length (edges (NewEdge_link s g a b)) = Suc (length (edges s))"
    and "graph_Node (nodes (NewEdge_link s g a b) ! i) = graph_Node (nodes s ! i)"
    and "nest_Node (nodes (NewEdge_link s g a b) ! i) = nest_Node (nodes s ! i)"
    and "strAttrs_Node (nodes (NewEdge_link s g a b) ! i) = strAttrs_Node (nodes s ! i)"
    and "a < length (nodes s) \<Longrightarrow> firstOutcomingEdge (nodes (NewEdge_link s g a b) ! i) =
           (if i = a then Some (length (edges s)) else firstOutcomingEdge (nodes s ! i))"
    and "b < length (nodes s) \<Longrightarrow> firstIncomingEdge (nodes (NewEdge_link s g a b) ! i) =
           (if i = b then Some (length (edges s)) else firstIncomingEdge (nodes s ! i))"
    and "i < length (edges s) \<Longrightarrow> edge_core (edges (NewEdge_link s g a b) ! i) = edge_core (edges s ! i)"
    and "edge_core (edges (NewEdge_link s g a b) ! length (edges s)) = (Some g, Some a, Some b, None)"
  by (auto simp: NewEdge_link_def Let_def nth_list_update_total nth_append core_defs
        split: option.splits)

lemma meet_nest_cong:
  "nests s' = nests s \<Longrightarrow> nestTrees s' = nestTrees s \<Longrightarrow> meet_nest s' a b = meet_nest s a b"
  by (simp add: meet_nest_def cong: option.case_cong)

lemma frame_ok_upd_edge [simp]: "frame_ok (upd_edge e f s) = frame_ok s"
  by (simp add: frame_ok_def graph_ok_def tree_ok_def nest_ok_def node_ok_def live_opt_def
        cong: option.case_cong)

lemma NewEdge_link_frame_ok:
  assumes fr: "frame_ok s" and a: "a < length (nodes s)" and b: "b < length (nodes s)"
  shows "frame_ok (NewEdge_link s g a b)"
proof -
  let ?s = "NewEdge_link s g a b"
  note F = NewEdge_link_fields
  note tr = frame_transfer[of s ?s]
  have D: "node_ok ?s i" if i: "i < length (nodes s)" for i
    using frame_okD(4)[OF fr i]
    unfolding node_ok_def live_opt_def
    using a b by (auto simp: F split: option.splits)
  show ?thesis
    using tr(1-3) frame_okD(1-3)[OF fr] D by (simp add: frame_ok_def F)
qed

lemma NewEdge_success:
  assumes co: "consistent s" and g: "g < length (graphs s)"
    and a: "a < length (nodes s)" and b: "b < length (nodes s)"
    and ga: "graph_Node (nodes s ! a) = Some g" and gb: "graph_Node (nodes s ! b) = Some g"
  shows "\<exists>s' na nb c. NewEdge s g (Some a) (Some b) = Some (Inr (s', Some (length (edges s)), None)) \<and>
           consistent s' \<and>
           nest_Node (nodes s ! a) = Some na \<and> nest_Node (nodes s ! b) = Some nb \<and>
           meet_nest s na nb = Some c \<and>
           same_links (upd_edge (length (edges s)) (\<lambda>x. x\<lparr>nest_Edge := Some c\<rparr>) (NewEdge_link s g a b)) s'"
proof -
  let ?e = "length (edges s)"
  let ?s5 = "NewEdge_link s g a b"
  from co have fr: "frame_ok s" by (simp add: consistent_def linked_def)
  note F = NewEdge_link_fields
  have fr5: "frame_ok ?s5" by (rule NewEdge_link_frame_ok[OF fr a b])
  have E5: "graph_Edge (edges ?s5 ! ?e) = Some g" "srcNode (edges ?s5 ! ?e) = Some a"
    "dstNode (edges ?s5 ! ?e) = Some b" "nest_Edge (edges ?s5 ! ?e) = None"
    using F(12) by (simp_all add: edge_core_def)
  from calcNestAndMoveToIt_frame[OF fr5, of ?e g a b] E5 g a b ga gb
  obtain na nb c s6 where
    C: "nest_Node (nodes s ! a) = Some na" "nest_Node (nodes s ! b) = Some nb"
       "meet_nest ?s5 na nb = Some c" "c < length (nests s)"
       "nestTree_Nest (nests s ! c) = nestTree_Graph (graphs s ! g)"
       "calcNestAndMoveToIt ?s5 ?e = Some (Inr s6)"
       "same_links (upd_edge ?e (\<lambda>x. x\<lparr>nest_Edge := Some c\<rparr>) ?s5) s6"
    by (auto simp: F)
  let ?s7 = "upd_edge ?e (\<lambda>x. x\<lparr>nest_Edge := Some c\<rparr>) ?s5"
  let ?s' = "upd_graph g (\<lambda>G. G\<lparr>edgeCount := edgeCount G + 1\<rparr>) s6"
  have m: "meet_nest s na nb = Some c" using C(3) meet_nest_cong[of ?s5 s na nb] by (simp add: F)
  have new: "NewEdge s g (Some a) (Some b) = Some (Inr (?s', Some ?e, None))"
    using ga gb C(6) by (simp add: NewEdge_def Let_def)
  have l: "same_links ?s7 ?s'"
    by (rule same_links_trans[OF C(7)], rule same_links_upd_graph) (simp add: graph_core_def)
  have m7: "meet_nest ?s7 na nb = Some c" using m meet_nest_cong[of ?s7 s na nb] by (simp add: F)
  have old: "edge_ok ?s7 i \<and> edge_attributed ?s7 i" if i: "i < ?e" for i
  proof -
    have ok: "edge_ok s i" and at: "edge_attributed s i"
      using co i by (simp_all add: consistent_def linked_def)
    show ?thesis
      using edges_transfer[OF fr i ok, of ?s7] at i a b by (simp add: F nth_list_update_total)
  qed
  have newe: "edge_ok ?s7 ?e \<and> edge_attributed ?s7 ?e"
    using F(12) g a b ga gb C(1,2,4,5) m7
    by (simp add: edge_ok_def edge_ends_ok_def edge_nest_ok_def edge_attributed_def F(1-10)
          edge_core_def nth_list_update_total)
  have "\<forall>i < Suc ?e. edge_ok ?s7 i \<and> edge_attributed ?s7 i"
    using old newe by (auto simp: less_Suc_eq)
  then have "consistent ?s7"
    using fr5 by (simp add: consistent_def linked_def F(5))
  with same_links_consistent[OF l] have "consistent ?s'" by simp
  with new C(1,2) m l show ?thesis by blast
qed

lemma NewEdge_consistent:
  assumes co: "consistent s" and g: "g < length (graphs s)"
    and src: "live_opt src (nodes s)" and dst: "live_opt dst (nodes s)"
    and new: "NewEdge s g src dst = Some (Inr (s', e, err))"
  shows "consistent s'"
proof (cases "\<exists>a b. src = Some a \<and> dst = Some b \<and> graph_Node (nodes s ! a) = Some g \<and>
          graph_Node (nodes s ! b) = Some g")
  case True
  then obtain a b where *: "src = Some a" "dst = Some b" "graph_Node (nodes s ! a) = Some g"
    "graph_Node (nodes s ! b) = Some g" by blast
  with src dst have "a < length (nodes s)" "b < length (nodes s)" by (simp_all add: live_opt_def)
  from NewEdge_success[OF co g this *(3,4)] new *(1,2) show ?thesis by auto
next
  case False
  with new have "s' = s"
    by (auto simp: NewEdge_def split: option.splits if_splits)
  with co show ?thesis by simp
qed

lemma MoveToNest_incoming_returns:
  "MoveToNest_incoming s edge = Some y \<Longrightarrow> (edge = None \<and> y = Inr s) \<or> (\<exists>p. y = Inl p)"
proof (induct rule: MoveToNest_incoming.raw_induct[rotated 1, consumes 1, case_names 1])
  case (1 loop s edge y)
  show ?case
  proof (cases edge)
    case None
    with 1(2) show ?thesis by simp
  next
    case (Some e)
    with 1 show ?thesis
      by (auto split: if_splits option.splits sum.splits)
  qed
qed

lemma MoveToNest_outcoming_returns:
  "MoveToNest_outcoming s edge = Some y \<Longrightarrow> (edge = None \<and> y = Inr s) \<or> (\<exists>p. y = Inl p)"
proof (induct rule: MoveToNest_outcoming.raw_induct[rotated 1, consumes 1, case_names 1])
  case (1 loop s edge y)
  show ?case
  proof (cases edge)
    case None
    with 1(2) show ?thesis by simp
  next
    case (Some e)
    with 1 show ?thesis
      by (auto split: if_splits option.splits sum.splits)
  qed
qed

lemma MoveToNest_returns:
  assumes "MoveToNest s n r = Some (Inr (s', err))"
  shows "(err = Some NestForeign \<and> s' = s) \<or>
         (err = None \<and> MoveToNest_relink s n r = Inr s' \<and>
          firstIncomingEdge (nodes s' ! n) = None \<and> firstOutcomingEdge (nodes s' ! n) = None)"
  using assms
  by (auto simp: MoveToNest_def split: option.splits if_splits sum.splits
        dest!: MoveToNest_incoming_returns MoveToNest_outcoming_returns)

lemma MoveToNest_relink_same_links:
  assumes "MoveToNest_relink s n r = Inr s'"
  shows "same_links (upd_node n (\<lambda>x. x\<lparr>nest_Node := Some r\<rparr>) s) s'"
proof -
  from assms obtain old s1 where
    *: "removeNode s old n = Inr s1" "addNode (upd_node n (\<lambda>x. x\<lparr>nest_Node := Some r\<rparr>) s1) r n = Inr s'"
    by (auto simp: MoveToNest_relink_def split: option.splits sum.splits)
  from same_links_set_nest_Node[OF removeNode_same_links[OF *(1)]] addNode_same_links[OF *(2)]
  show ?thesis by (rule same_links_trans)
qed

lemma set_nest_Node_consistent:
  assumes co: "consistent s" and n: "n < length (nodes s)" and r: "r < length (nests s)"
    and nt: "nestTree_Nest (nests s ! r) = Some nt" and bg: "baseGraph (nestTrees s ! nt) = graph_Node (nodes s ! n)"
    and noin: "firstIncomingEdge (nodes s ! n) = None" and noout: "firstOutcomingEdge (nodes s ! n) = None"
  shows "consistent (upd_node n (\<lambda>x. x\<lparr>nest_Node := Some r\<rparr>) s)"
proof -
  let ?s = "upd_node n (\<lambda>x. x\<lparr>nest_Node := Some r\<rparr>) s"
  from co have fr: "frame_ok s" by (simp add: consistent_def linked_def)
  note tr = frame_transfer[of s ?s]
  from frame_okD(3)[OF fr r] nt have t: "nt < length (nestTrees s)" by (auto simp: nest_ok_def)
  from frame_okD(4)[OF fr n] obtain g where g: "graph_Node (nodes s ! n) = Some g" "g < length (graphs s)"
    by (auto simp: node_ok_def)
  from frame_okD(2)[OF fr t] bg g have gt: "nestTree_Graph (graphs s ! g) = Some nt"
    by (auto simp: tree_ok_def)
  have D: "node_ok ?s i" if i: "i < length (nodes s)" for i
  proof (cases "i = n")
    case True
    with frame_okD(4)[OF fr n] r nt gt g n show ?thesis
      by (auto simp: node_ok_def nth_list_update_total)
  next
    case False
    with frame_okD(4)[OF fr i] show ?thesis
      by (auto simp: node_ok_def nth_list_update_total)
  qed
  have fr': "frame_ok ?s"
    using tr(1-3) frame_okD(1-3)[OF fr] D by (simp add: frame_ok_def)
  have "edge_ok ?s e \<and> edge_attributed ?s e" if e: "e < length (edges s)" for e
  proof -
    have ok: "edge_ok s e" and at: "edge_attributed s e"
      using co e by (simp_all add: consistent_def linked_def)
    have "edge_ok ?s e"
      by (rule edges_transfer(1)[OF fr e ok]) (auto simp: nth_list_update_total noin noout)
    moreover have "edge_attributed ?s e"
      by (rule edges_transfer(2)[OF fr e ok _ _ _ _ _ _ _ _ _ _ at])
         (auto simp: nth_list_update_total noin noout)
    ultimately show ?thesis by simp
  qed
  with fr' show ?thesis by (simp add: consistent_def linked_def)
qed

lemma MoveToNest_consistent:
  assumes co: "consistent s" and n: "n < length (nodes s)" and r: "r < length (nests s)"
    and mv: "MoveToNest s n r = Some (Inr (s', err))"
  shows "consistent s'"
proof -
  from MoveToNest_returns[OF mv] show ?thesis
  proof
    assume "err = Some NestForeign \<and> s' = s"
    with co show ?thesis by simp
  next
    assume *: "err = None \<and> MoveToNest_relink s n r = Inr s' \<and>
          firstIncomingEdge (nodes s' ! n) = None \<and> firstOutcomingEdge (nodes s' ! n) = None"
    let ?s = "upd_node n (\<lambda>x. x\<lparr>nest_Node := Some r\<rparr>) s"
    from * have l: "same_links ?s s'" by (simp add: MoveToNest_relink_same_links)
    from * same_links_fields(25,26)[OF l, of n] n
    have no: "firstIncomingEdge (nodes s ! n) = None" "firstOutcomingEdge (nodes s ! n) = None"
      by (simp_all add: nth_list_update_total)
    from mv * obtain nt where nt: "nestTree_Nest (nests s ! r) = Some nt"
      "baseGraph (nestTrees s ! nt) = graph_Node (nodes s ! n)"
      by (auto simp: MoveToNest_def split: option.splits if_splits)
    from set_nest_Node_consistent[OF co n r nt no] same_links_consistent[OF l]
    show ?thesis by simp
  qed
qed

text \<open>Hence every reachable heap is consistent.\<close>

lemma reachable_consistent: "reachable s \<Longrightarrow> consistent s"
proof (induction rule: reachable.induct)
  case r_init
  show ?case
    by (simp add: consistent_def linked_def frame_ok_def empty_heap_def)
next
  case (r_NewGraph s attr_spec s' g)
  then show ?case by (blast intro: NewGraph_consistent)
next
  case (r_NewNest s nt s' r)
  then show ?case by (blast intro: NewNest_consistent)
next
  case (r_NewNode s g s' n)
  then show ?case by (blast intro: NewNode_consistent)
next
  case (r_NewEdge s g src dst s' e err)
  then show ?case by (blast intro: NewEdge_consistent)
next
  case (r_MoveToNest s n r s' err)
  then show ?case by (blast intro: MoveToNest_consistent)
next
  case (r_NewGraphStrAttr s g s' ga err)
  with same_links_consistent[OF attr_ops_same_links(1)] show ?case by blast
next
  case (r_Graph_SetStrAttrVal s g ga val s' err)
  with same_links_consistent[OF attr_ops_same_links(2)] show ?case by blast
next
  case (r_Graph_RemoveStrAttr s g ga s' err)
  with same_links_consistent[OF attr_ops_same_links(3)] show ?case by blast
next
  case (r_ReleaseGraphStrAttr s g ga s' ga' err)
  with same_links_consistent[OF ReleaseGraphStrAttr_same_links] show ?case by blast
next
  case (r_NewNodeStrAttr s g s' na err)
  with same_links_consistent[OF attr_ops_same_links(4)] show ?case by blast
next
  case (r_Node_SetStrAttrVal s n na val s' err)
  with same_links_consistent[OF attr_ops_same_links(5)] show ?case by blast
next
  case (r_Node_RemoveStrAttr s n na s' err)
  with same_links_consistent[OF attr_ops_same_links(6)] show ?case by blast
next
  case (r_ReleaseNodeStrAttr s g na s' na' err)
  with same_links_consistent[OF ReleaseNodeStrAttr_same_links] show ?case by blast
next
  case (r_NewNestStrAttr s nt s' ta err)
  with same_links_consistent[OF attr_ops_same_links(7)] show ?case by blast
next
  case (r_Nest_SetStrAttrVal s r ta val s' err)
  with same_links_consistent[OF attr_ops_same_links(8)] show ?case by blast
next
  case (r_Nest_RemoveStrAttr s r ta s' err)
  with same_links_consistent[OF attr_ops_same_links(9)] show ?case by blast
next
  case (r_ReleaseNestStrAttr s nt ta s' ta' err)
  with same_links_consistent[OF ReleaseNestStrAttr_same_links] show ?case by blast
qed

section \<open>The example states are reachable\<close>

lemma reachable_demo_graph: "reachable demo_graph"
  by (rule r_NewGraph[OF r_init, of spec111 _ 0]) code_simp

lemma reachable_demo_nest: "reachable demo_nest"
  by (rule r_NewNest[OF reachable_demo_graph, of 0 _ 1]) code_simp+

lemma reachable_demo_two_nests: "reachable demo_two_nests"
  by (rule r_NewNest[OF reachable_demo_nest, of 0 _ 2]) code_simp+

lemma reachable_demo_two_nodes: "reachable demo_two_nodes"
proof -
  have "reachable (fst (projr (NewNode demo_two_nests 0)))"
    by (rule r_NewNode[OF reachable_demo_two_nests, of 0 _ 0]) code_simp+
  then show ?thesis
    by (rule r_NewNode[of _ 0 _ 1]) code_simp+
qed

lemma reachable_demo_placed: "reachable demo_placed"
proof -
  have "reachable (fst (projr (the (MoveToNest demo_two_nodes 0 1))))"
    by (rule r_MoveToNest[OF reachable_demo_two_nodes, of 0 1 _ None]) code_simp+
  then show ?thesis
    by (rule r_MoveToNest[of _ 1 2 _ None]) code_simp+
qed

lemma reachable_demo_edge: "reachable demo_edge"
  by (rule r_NewEdge[OF reachable_demo_placed, of 0 "Some 0" "Some 1" _ "Some 0" None]) code_simp+

section \<open>The nest of an edge\<close>

lemma consistentD:
  assumes "consistent s"
  shows "frame_ok s" and "linked s"
    and "e < length (edges s) \<Longrightarrow> edge_ok s e"
    and "e < length (edges s) \<Longrightarrow> edge_attributed s e"
  using assms by (simp_all add: consistent_def linked_def)

text \<open>In a consistent heap a nest is the root of its tree or a child of that root.\<close>

lemma nest_shape:
  assumes fr: "frame_ok s" and r: "r < length (nests s)"
  obtains t root where "nestTree_Nest (nests s ! r) = Some t" "t < length (nestTrees s)"
    "rootNest (nestTrees s ! t) = Some root" "root < length (nests s)"
    "level (nests s ! root) = 0" "parentNest (nests s ! root) = None"
    "nestTree_Nest (nests s ! root) = Some t"
    "r = root \<or> (r \<noteq> root \<and> parentNest (nests s ! r) = Some root \<and> level (nests s ! r) = 1 \<and>
       firstChildNest (nests s ! r) = None \<and> lastChildNest (nests s ! r) = None)"
proof -
  from frame_okD(3)[OF fr r] obtain t root where
    N: "nestTree_Nest (nests s ! r) = Some t" "t < length (nestTrees s)"
      "rootNest (nestTrees s ! t) = Some root"
      "r = root \<or> (parentNest (nests s ! r) = Some root \<and> level (nests s ! r) = 1 \<and>
       firstChildNest (nests s ! r) = None \<and> lastChildNest (nests s ! r) = None)"
    by (auto simp: nest_ok_def)
  from frame_okD(2)[OF fr N(2)] N(3) have
    T: "root < length (nests s)" "level (nests s ! root) = 0" "parentNest (nests s ! root) = None"
      "nestTree_Nest (nests s ! root) = Some t"
    by (auto simp: tree_ok_def)
  from N(4) T(3) have "r = root \<or> (r \<noteq> root \<and> parentNest (nests s ! r) = Some root \<and> level (nests s ! r) = 1 \<and>
       firstChildNest (nests s ! r) = None \<and> lastChildNest (nests s ! r) = None)"
    by auto
  with N T that show thesis by blast
qed

lemma ancestors_root:
  "parentNest (nests s ! root) = None \<Longrightarrow> ancestors s k root = [root]"
  by (cases k) simp_all

lemma nest_ancestors_flat:
  assumes "r < length (nests s)"
    and "parentNest (nests s ! root) = None"
    and "r = root \<or> (r \<noteq> root \<and> parentNest (nests s ! r) = Some root)"
  shows "nest_ancestors s r = (if r = root then [root] else [r, root])"
proof -
  from assms(1) obtain k where k: "length (nests s) = Suc k" by (cases "length (nests s)") auto
  show ?thesis
    using assms(2,3) by (auto simp: nest_ancestors_def k ancestors_root)
qed

lemma meet_nest_is_nearest:
  assumes fr: "frame_ok s" and a: "a < length (nests s)" and b: "b < length (nests s)"
    and same: "nestTree_Nest (nests s ! a) = nestTree_Nest (nests s ! b)"
    and m: "meet_nest s a b = Some c"
  shows "nearest_common_ancestor s a b c \<and> (\<forall>c'. nearest_common_ancestor s a b c' \<longrightarrow> c' = c)"
proof -
  from nest_shape[OF fr a] obtain t root where
    A: "nestTree_Nest (nests s ! a) = Some t" "rootNest (nestTrees s ! t) = Some root"
      "level (nests s ! root) = 0" "parentNest (nests s ! root) = None"
      "a = root \<or> (a \<noteq> root \<and> parentNest (nests s ! a) = Some root \<and> level (nests s ! a) = 1 \<and>
       firstChildNest (nests s ! a) = None \<and> lastChildNest (nests s ! a) = None)"
    by metis
  from nest_shape[OF fr b] same A(1,2) have
    B: "b = root \<or> (b \<noteq> root \<and> parentNest (nests s ! b) = Some root \<and> level (nests s ! b) = 1 \<and>
       firstChildNest (nests s ! b) = None \<and> lastChildNest (nests s ! b) = None)"
    by (metis option.inject)
  have ca: "nest_ancestors s a = (if a = root then [root] else [a, root])"
    using A(5) by (intro nest_ancestors_flat[OF a A(4)]) auto
  have cb: "nest_ancestors s b = (if b = root then [root] else [b, root])"
    using B by (intro nest_ancestors_flat[OF b A(4)]) auto
  have c: "c = (if a = b then a else root)"
    using m A(1,2) by (auto simp: meet_nest_def split: if_splits)
  show ?thesis
    unfolding nearest_common_ancestor_def ca cb c
    using A(3,5) B by (auto split: if_splits)
qed

text \<open>
  Claim C1. In every reachable state every edge has a nest, and that nest is the nearest
  common ancestor, in the nest tree, of the nest of its source node and the nest of its
  destination node (the one nest that is so).
\<close>

theorem edge_nest_is_nearest_common_ancestor:
  assumes "reachable s" and "e < length (edges s)"
  shows "\<exists>a b na nb c. srcNode (edges s ! e) = Some a \<and> dstNode (edges s ! e) = Some b \<and>
           nest_Node (nodes s ! a) = Some na \<and> nest_Node (nodes s ! b) = Some nb \<and>
           nest_Edge (edges s ! e) = Some c \<and> nearest_common_ancestor s na nb c \<and>
           (\<forall>c'. nearest_common_ancestor s na nb c' \<longrightarrow> c' = c)"
proof -
  from reachable_consistent[OF assms(1)] have co: "consistent s" .
  note fr = consistentD(1)[OF co]
  from consistentD(3)[OF co assms(2)] obtain g a b where
    K: "graph_Edge (edges s ! e) = Some g" "g < length (graphs s)"
      "srcNode (edges s ! e) = Some a" "a < length (nodes s)"
      "dstNode (edges s ! e) = Some b" "b < length (nodes s)"
      "graph_Node (nodes s ! a) = Some g" "graph_Node (nodes s ! b) = Some g"
    unfolding edge_ok_def edge_ends_ok_def by auto
  from consistentD(4)[OF co assms(2)] K(3,5) obtain na nb where
    A0: "nest_Node (nodes s ! a) = Some na" "nest_Node (nodes s ! b) = Some nb"
      "nest_Edge (edges s ! e) \<noteq> None" "nest_Edge (edges s ! e) = meet_nest s na nb"
    unfolding edge_attributed_def by (metis option.inject)
  then obtain c where "nest_Edge (edges s ! e) = Some c" by auto
  with A0 have A: "nest_Node (nodes s ! a) = Some na" "nest_Node (nodes s ! b) = Some nb"
      "nest_Edge (edges s ! e) = Some c" "meet_nest s na nb = Some c"
    by simp_all
  from frame_okD(4)[OF fr K(4)] A(1) K(7) have
    na: "na < length (nests s)" "nestTree_Nest (nests s ! na) = nestTree_Graph (graphs s ! g)"
    by (auto simp: node_ok_def)
  from frame_okD(4)[OF fr K(6)] A(2) K(8) have
    nb: "nb < length (nests s)" "nestTree_Nest (nests s ! nb) = nestTree_Graph (graphs s ! g)"
    by (auto simp: node_ok_def)
  from meet_nest_is_nearest[OF fr na(1) nb(1) _ A(4)] na(2) nb(2)
  have "nearest_common_ancestor s na nb c \<and> (\<forall>c'. nearest_common_ancestor s na nb c' \<longrightarrow> c' = c)"
    by simp
  with K(3,5) A(1-3) show ?thesis by blast
qed

theorem edge_nest_is_nearest_common_ancestor_witness:
  "reachable demo_edge \<and> 0 < length (edges demo_edge) \<and>
   srcNode (edges demo_edge ! 0) = Some 0 \<and> dstNode (edges demo_edge ! 0) = Some 1 \<and>
   nest_Node (nodes demo_edge ! 0) = Some 1 \<and> nest_Node (nodes demo_edge ! 1) = Some 2 \<and>
   nest_Edge (edges demo_edge ! 0) = Some 0 \<and> nearest_common_ancestor demo_edge 1 2 0"
proof -
  have len: "0 < length (edges demo_edge)" by code_simp
  have ev: "srcNode (edges demo_edge ! 0) = Some 0" "dstNode (edges demo_edge ! 0) = Some 1"
    "nest_Node (nodes demo_edge ! 0) = Some 1" "nest_Node (nodes demo_edge ! 1) = Some 2"
    "nest_Edge (edges demo_edge ! 0) = Some 0"
    by code_simp+
  from edge_nest_is_nearest_common_ancestor[OF reachable_demo_edge len] ev
  have "nearest_common_ancestor demo_edge 1 2 0" by auto
  with reachable_demo_edge len ev show ?thesis by simp
qed

section \<open>The shape of the nest tree\<close>

lemma NewNest_returns:
  assumes fr: "frame_ok s" and nt: "nt < length (nestTrees s)"
  shows "\<exists>s'. NewNest s nt = Inr (s', length (nests s))"
proof -
  from frame_okD(2)[OF fr nt] obtain g root where
    T: "baseGraph (nestTrees s ! nt) = Some g" "g < length (graphs s)"
      "rootNest (nestTrees s ! nt) = Some root"
    by (auto simp: tree_ok_def)
  from frame_okD(1)[OF fr T(2)] have "\<not> NestStrAttrNum (attrSpec (graphs s ! g)) < 0"
    by (auto simp: graph_ok_def)
  with T show ?thesis by (simp add: NewNest_def Let_def)
qed

text \<open>
  Claim C10. In every reachable state, \<^verbatim>\<open>NewNest\<close> returns a new nest that is a child of
  the root of its tree, at level 1, at the head of the root's list of children (the former
  first child is its next sibling); and every nest is the root of its tree (level 0, no
  parent) or a child of that root at level 1, so no nest lies deeper than level 1.
\<close>

theorem nests_are_children_of_root:
  assumes "reachable s"
  shows "(\<forall>nt < length (nestTrees s). \<exists>root s' r.
            rootNest (nestTrees s ! nt) = Some root \<and> NewNest s nt = Inr (s', r) \<and>
            r = length (nests s) \<and> nestTree_Nest (nests s' ! r) = Some nt \<and>
            parentNest (nests s' ! r) = Some root \<and> level (nests s' ! r) = 1 \<and>
            firstChildNest (nests s' ! root) = Some r \<and> prevSiblingNest (nests s' ! r) = None \<and>
            nextSiblingNest (nests s' ! r) = firstChildNest (nests s ! root)) \<and>
         (\<forall>r < length (nests s). \<exists>t root.
            nestTree_Nest (nests s ! r) = Some t \<and> rootNest (nestTrees s ! t) = Some root \<and>
            level (nests s ! root) = 0 \<and> parentNest (nests s ! root) = None \<and>
            (r = root \<or> parentNest (nests s ! r) = Some root \<and> level (nests s ! r) = 1))"
proof (intro conjI allI impI)
  from reachable_consistent[OF assms] have fr: "frame_ok s" by (rule consistentD)
  {
    fix nt assume nt: "nt < length (nestTrees s)"
    from frame_okD(2)[OF fr nt] obtain root where
      T: "rootNest (nestTrees s ! nt) = Some root" "root < length (nests s)"
        "level (nests s ! root) = 0"
        "\<forall>c. firstChildNest (nests s ! root) = Some c \<longrightarrow> c < length (nests s)"
      unfolding tree_ok_def by blast
    have live: "live_opt (firstChildNest (nests s ! root)) (nests s)"
      using T(4) by (auto simp: live_opt_def split: option.splits)
    from NewNest_returns[OF fr nt] obtain s' where new: "NewNest s nt = Inr (s', length (nests s))"
      by blast
    note F = NewNest_fields[OF new T(1) T(2) live]
    show "\<exists>root s' r.
            rootNest (nestTrees s ! nt) = Some root \<and> NewNest s nt = Inr (s', r) \<and>
            r = length (nests s) \<and> nestTree_Nest (nests s' ! r) = Some nt \<and>
            parentNest (nests s' ! r) = Some root \<and> level (nests s' ! r) = 1 \<and>
            firstChildNest (nests s' ! root) = Some r \<and> prevSiblingNest (nests s' ! r) = None \<and>
            nextSiblingNest (nests s' ! r) = firstChildNest (nests s ! root)"
    proof (intro exI conjI)
      show "rootNest (nestTrees s ! nt) = Some root" by (rule T(1))
      show "NewNest s nt = Inr (s', length (nests s))" by (rule new)
      show "length (nests s) = length (nests s)" by simp
      show "nestTree_Nest (nests s' ! length (nests s)) = Some nt" by (simp add: F(10))
      show "parentNest (nests s' ! length (nests s)) = Some root" by (simp add: F(12))
      show "level (nests s' ! length (nests s)) = 1" by (simp add: F(11) T(3))
      show "firstChildNest (nests s' ! root) = Some (length (nests s))"
        using T(2) by (simp add: F(13))
      show "prevSiblingNest (nests s' ! length (nests s)) = None" by (simp add: F(16))
      show "nextSiblingNest (nests s' ! length (nests s)) = firstChildNest (nests s ! root)"
        by (simp add: F(15))
    qed
  }
  {
    fix r assume r: "r < length (nests s)"
    from nest_shape[OF fr r] obtain t root where
      "nestTree_Nest (nests s ! r) = Some t" "rootNest (nestTrees s ! t) = Some root"
      "level (nests s ! root) = 0" "parentNest (nests s ! root) = None"
      "r = root \<or> (r \<noteq> root \<and> parentNest (nests s ! r) = Some root \<and> level (nests s ! r) = 1 \<and>
         firstChildNest (nests s ! r) = None \<and> lastChildNest (nests s ! r) = None)"
      by metis
    then show "\<exists>t root.
            nestTree_Nest (nests s ! r) = Some t \<and> rootNest (nestTrees s ! t) = Some root \<and>
            level (nests s ! root) = 0 \<and> parentNest (nests s ! root) = None \<and>
            (r = root \<or> parentNest (nests s ! r) = Some root \<and> level (nests s ! r) = 1)"
      by blast
  }
qed

theorem nests_are_children_of_root_witness:
  "reachable demo_nest \<and> 0 < length (nestTrees demo_nest) \<and>
   NewNest demo_nest 0 = Inr (demo_two_nests, 2) \<and>
   parentNest (nests demo_two_nests ! 2) = Some 0 \<and> level (nests demo_two_nests ! 2) = 1 \<and>
   firstChildNest (nests demo_two_nests ! 0) = Some 2 \<and>
   nextSiblingNest (nests demo_two_nests ! 2) = Some 1 \<and>
   firstChildNest (nests demo_nest ! 0) = Some 1 \<and>
   rootNest (nestTrees demo_nest ! 0) = Some 0"
proof -
  have len: "0 < length (nestTrees demo_nest)" by code_simp
  have ev: "NewNest demo_nest 0 = Inr (demo_two_nests, 2)" "rootNest (nestTrees demo_nest ! 0) = Some 0"
    "firstChildNest (nests demo_nest ! 0) = Some 1"
    by code_simp+
  from nests_are_children_of_root[OF reachable_demo_nest, THEN conjunct1, rule_format, OF len]
  obtain root s' r where
    "rootNest (nestTrees demo_nest ! 0) = Some root" "NewNest demo_nest 0 = Inr (s', r)"
    "parentNest (nests s' ! r) = Some root" "level (nests s' ! r) = 1"
    "firstChildNest (nests s' ! root) = Some r"
    "nextSiblingNest (nests s' ! r) = firstChildNest (nests demo_nest ! root)"
    by blast
  with ev have "parentNest (nests demo_two_nests ! 2) = Some 0 \<and> level (nests demo_two_nests ! 2) = 1 \<and>
   firstChildNest (nests demo_two_nests ! 0) = Some 2 \<and>
   nextSiblingNest (nests demo_two_nests ! 2) = Some 1"
    by auto
  with reachable_demo_nest len ev show ?thesis by simp
qed

section \<open>Successor and predecessor in the nest tree\<close>

lemma GetNextNest_climb_root:
  assumes "parentNest (nests s ! root) = None" and "nextSiblingNest (nests s ! root) = None"
  shows "GetNextNest_climb s (Some root) = Some None"
proof -
  have "GetNextNest_climb s None = Some None"
    by (subst GetNextNest_climb.simps) simp
  with assms show ?thesis
    by (subst GetNextNest_climb.simps) simp
qed

text \<open>
  Claim C9, amended. In every reachable state \<^verbatim>\<open>GetNextNest\<close> returns, and for every nest
  \<open>g\<close> that has a successor (it is not the last nest in preorder), the predecessor of that
  successor is \<open>g\<close>; the root is included.
\<close>

theorem prev_of_next_is_identity:
  assumes "reachable s" and "g < length (nests s)"
  shows "(\<exists>n. GetNextNest s g = Some n) \<and>
         (\<forall>n. GetNextNest s g = Some (Some n) \<longrightarrow>
            GetPrevNest s n = Some (Some g) \<and> prev_of_next s g = Some (Inr (Some g)))"
proof -
  from reachable_consistent[OF assms(1)] have fr: "frame_ok s" by (rule consistentD)
  from nest_shape[OF fr assms(2)] obtain t root where
    S: "nestTree_Nest (nests s ! g) = Some t" "t < length (nestTrees s)"
      "rootNest (nestTrees s ! t) = Some root" "parentNest (nests s ! root) = None"
      "g = root \<or> (g \<noteq> root \<and> parentNest (nests s ! g) = Some root \<and> level (nests s ! g) = 1 \<and>
         firstChildNest (nests s ! g) = None \<and> lastChildNest (nests s ! g) = None)"
    by metis
  from frame_okD(2)[OF fr S(2)] S(3) have
    T: "nextSiblingNest (nests s ! root) = None"
      "\<forall>c. firstChildNest (nests s ! root) = Some c \<longrightarrow>
           prevSiblingNest (nests s ! c) = None \<and> parentNest (nests s ! c) = Some root"
    by (auto simp: tree_ok_def)
  from frame_okD(3)[OF fr assms(2)] have
    N: "\<forall>q. nextSiblingNest (nests s ! g) = Some q \<longrightarrow> prevSiblingNest (nests s ! q) = Some g"
    by (auto simp: nest_ok_def)
  note climb = GetNextNest_climb_root[OF S(4) T(1)]
  have next_cases: "GetNextNest s g =
      (case firstChildNest (nests s ! g) of Some c \<Rightarrow> Some (Some c)
       | None \<Rightarrow> (case nextSiblingNest (nests s ! g) of Some q \<Rightarrow> Some (Some q) | None \<Rightarrow> Some None))"
  proof (cases "g = root")
    case True
    then show ?thesis
      using S(4) T(1) by (auto simp: GetNextNest_def GetNextNest_climb.simps[of s None] split: option.splits)
  next
    case False
    with S(5) climb show ?thesis
      by (auto simp: GetNextNest_def split: option.splits)
  qed
  have prev: "GetPrevNest s n = Some (Some g)" if n: "GetNextNest s g = Some (Some n)" for n
  proof (cases "firstChildNest (nests s ! g)")
    case (Some c)
    with n next_cases have "n = c" by simp
    moreover from Some S(5) have "g = root" by auto
    ultimately show ?thesis using T(2) Some by (simp add: GetPrevNest_def)
  next
    case None
    with n next_cases have q: "nextSiblingNest (nests s ! g) = Some n"
      by (auto split: option.splits)
    with T(1) S(5) have "lastChildNest (nests s ! g) = None" by auto
    then have "GetPrevNest_descend s g = Some g"
      by (subst GetPrevNest_descend.simps) simp
    with q N show ?thesis by (simp add: GetPrevNest_def)
  qed
  show ?thesis
    using next_cases prev by (auto simp: prev_of_next_def split: option.splits)
qed

theorem prev_of_next_is_identity_witness:
  "reachable demo_two_nests \<and> 2 < length (nests demo_two_nests) \<and>
   GetNextNest demo_two_nests 2 = Some (Some 1) \<and> GetPrevNest demo_two_nests 1 = Some (Some 2) \<and>
   prev_of_next demo_two_nests 2 = Some (Inr (Some 2))"
proof -
  have len: "2 < length (nests demo_two_nests)" by code_simp
  have ev: "GetNextNest demo_two_nests 2 = Some (Some 1)" by code_simp
  from prev_of_next_is_identity[OF reachable_demo_two_nests len] ev
  have "GetPrevNest demo_two_nests 1 = Some (Some 2) \<and>
   prev_of_next demo_two_nests 2 = Some (Inr (Some 2))" by blast
  with reachable_demo_two_nests len ev show ?thesis by simp
qed

section \<open>Moving a node\<close>

lemma set_nest_Node_linked:
  assumes li: "linked s" and n: "n < length (nodes s)" and r: "r < length (nests s)"
    and nt: "nestTree_Nest (nests s ! r) = Some nt" and bg: "baseGraph (nestTrees s ! nt) = graph_Node (nodes s ! n)"
  shows "linked (upd_node n (\<lambda>x. x\<lparr>nest_Node := Some r\<rparr>) s)"
proof -
  let ?s = "upd_node n (\<lambda>x. x\<lparr>nest_Node := Some r\<rparr>) s"
  from li have fr: "frame_ok s" by (simp add: linked_def)
  note tr = frame_transfer[of s ?s]
  from frame_okD(3)[OF fr r] nt have t: "nt < length (nestTrees s)" by (auto simp: nest_ok_def)
  from frame_okD(4)[OF fr n] obtain g where g: "graph_Node (nodes s ! n) = Some g" "g < length (graphs s)"
    by (auto simp: node_ok_def)
  from frame_okD(2)[OF fr t] bg g have gt: "nestTree_Graph (graphs s ! g) = Some nt"
    by (auto simp: tree_ok_def)
  have D: "node_ok ?s i" if i: "i < length (nodes s)" for i
  proof (cases "i = n")
    case True
    with frame_okD(4)[OF fr n] r nt gt g n show ?thesis
      by (auto simp: node_ok_def nth_list_update_total)
  next
    case False
    with frame_okD(4)[OF fr i] show ?thesis
      by (auto simp: node_ok_def nth_list_update_total)
  qed
  have fr': "frame_ok ?s"
    using tr(1-3) frame_okD(1-3)[OF fr] D by (simp add: frame_ok_def)
  have "edge_ok ?s e" if e: "e < length (edges s)" for e
  proof -
    have ok: "edge_ok s e" using li e by (simp add: linked_def)
    show ?thesis
      by (rule edge_ok_transfer[OF fr e ok]) (auto simp: nth_list_update_total)
  qed
  with fr' show ?thesis by (simp add: linked_def)
qed

lemma MoveToNest_relink_returns:
  assumes li: "linked s" and n: "n < length (nodes s)" and r: "r < length (nests s)"
    and nt: "nestTree_Nest (nests s ! r) = Some nt" and bg: "baseGraph (nestTrees s ! nt) = graph_Node (nodes s ! n)"
  shows "\<exists>s1. MoveToNest_relink s n r = Inr s1 \<and> linked s1 \<and>
           same_links (upd_node n (\<lambda>x. x\<lparr>nest_Node := Some r\<rparr>) s) s1"
proof -
  from li have fr: "frame_ok s" by (simp add: linked_def)
  from frame_okD(4)[OF fr n] obtain g old where
    D: "graph_Node (nodes s ! n) = Some g" "g < length (graphs s)"
      "nest_Node (nodes s ! n) = Some old" "old < length (nests s)"
      "nestTree_Nest (nests s ! old) = nestTree_Graph (graphs s ! g)"
    by (auto simp: node_ok_def)
  from frame_okD(1)[OF fr D(2)] obtain t where
    G: "nestTree_Graph (graphs s ! g) = Some t" "baseGraph (nestTrees s ! t) = Some g"
    by (auto simp: graph_ok_def)
  from node_list_ops_return(1)[of s old t n] D G obtain s1 where
    s1: "removeNode s old n = Inr s1" by auto
  let ?f = "\<lambda>x. x\<lparr>nest_Node := Some r\<rparr>"
  have l1: "same_links (upd_node n ?f s) (upd_node n ?f s1)"
    by (rule same_links_set_nest_Node[OF removeNode_same_links[OF s1]])
  note S = same_links_fields[OF removeNode_same_links[OF s1]]
  have "nestTree_Nest (nests (upd_node n ?f s1) ! r) = Some nt"
    using nt by (simp add: S)
  moreover have "baseGraph (nestTrees (upd_node n ?f s1) ! nt) = graph_Node (nodes (upd_node n ?f s1) ! n)"
    using bg by (simp add: S nth_list_update_total)
  ultimately obtain s2 where s2: "addNode (upd_node n ?f s1) r n = Inr s2"
    using node_list_ops_return(2) by blast
  have l: "same_links (upd_node n ?f s) s2"
    using l1 addNode_same_links[OF s2] by (rule same_links_trans)
  have "MoveToNest_relink s n r = Inr s2"
    using D(3) s1 s2 by (simp add: MoveToNest_relink_def)
  moreover have "linked s2"
    using set_nest_Node_linked[OF li n r nt bg] same_links_linked[OF l] by simp
  ultimately show ?thesis using l by blast
qed

lemma set_nest_Edge_linked:
  assumes li: "linked s" and e: "e < length (edges s)" and c: "c < length (nests s)"
    and g: "graph_Edge (edges s ! e) = Some g"
    and t: "nestTree_Nest (nests s ! c) = nestTree_Graph (graphs s ! g)"
  shows "linked (upd_edge e (\<lambda>x. x\<lparr>nest_Edge := Some c\<rparr>) s)"
proof -
  let ?s = "upd_edge e (\<lambda>x. x\<lparr>nest_Edge := Some c\<rparr>) s"
  from li have fr: "frame_ok s" by (simp add: linked_def)
  have "edge_ok ?s i" if i: "i < length (edges s)" for i
  proof (cases "i = e")
    case True
    with linkedD(5)[OF li e] c g t e show ?thesis
      by (auto simp: edge_ok_def edge_ends_ok_def edge_nest_ok_def nth_list_update_total)
  next
    case False
    with linkedD(5)[OF li i] show ?thesis
      by (auto simp: edge_ok_def edge_ends_ok_def edge_nest_ok_def nth_list_update_total)
  qed
  with fr show ?thesis by (simp add: linked_def)
qed

text \<open>In a linked heap the recomputation of an edge's nest returns, to a linked heap.\<close>

lemma calcNestAndMoveToIt_linked:
  assumes li: "linked s" and e: "e < length (edges s)"
  shows "\<exists>s' c. calcNestAndMoveToIt s e = Some (Inr s') \<and> linked s' \<and>
           length (edges s') = length (edges s) \<and>
           same_links (upd_edge e (\<lambda>x. x\<lparr>nest_Edge := Some c\<rparr>) s) s'"
proof -
  from li have fr: "frame_ok s" by (simp add: linked_def)
  from linkedD(5)[OF li e] obtain g a b where
    K: "graph_Edge (edges s ! e) = Some g" "g < length (graphs s)"
      "srcNode (edges s ! e) = Some a" "a < length (nodes s)"
      "dstNode (edges s ! e) = Some b" "b < length (nodes s)"
      "graph_Node (nodes s ! a) = Some g" "graph_Node (nodes s ! b) = Some g"
    and old: "edge_nest_ok s e"
    unfolding edge_ok_def edge_ends_ok_def by auto
  from calcNestAndMoveToIt_frame[OF fr e K] old obtain c s' where
    C: "c < length (nests s)" "nestTree_Nest (nests s ! c) = nestTree_Graph (graphs s ! g)"
      "calcNestAndMoveToIt s e = Some (Inr s')"
      "same_links (upd_edge e (\<lambda>x. x\<lparr>nest_Edge := Some c\<rparr>) s) s'"
    by blast
  from set_nest_Edge_linked[OF li e C(1) K(1) C(2)] same_links_linked[OF C(4)]
  have "linked s'" by simp
  moreover have "length (edges s') = length (edges s)"
    using same_links_fields(5)[OF C(4)] by simp
  ultimately show ?thesis using C(3,4) by blast
qed

text \<open>
  The loops of \<^verbatim>\<open>MoveToNest\<close> never leave an edge they have entered: in a linked heap
  every pass returns to a linked heap and the loop variable stays the same.
\<close>

lemma MoveToNest_incoming_stuck:
  assumes "MoveToNest_incoming s edge = Some y"
  shows "\<not> (linked s \<and> (\<exists>e. edge = Some e \<and> e < length (edges s)))"
  using assms
proof (induct rule: MoveToNest_incoming.raw_induct[rotated 1, consumes 1, case_names 1])
  case (1 loop s edge y)
  show ?case
  proof
    assume "linked s \<and> (\<exists>e. edge = Some e \<and> e < length (edges s))"
    then obtain e where li: "linked s" and e: "edge = Some e" "e < length (edges s)" by blast
    from linkedD(5)[OF li e(2)] have ne: "nest_Edge (edges s ! e) \<noteq> None"
      by (auto simp: edge_ok_def edge_nest_ok_def)
    from calcNestAndMoveToIt_linked[OF li e(2)] obtain s' where
      c: "calcNestAndMoveToIt s e = Some (Inr s')" "linked s'" "length (edges s') = length (edges s)"
      by blast
    from 1(2) e ne c(1) have "loop s' (Some e) = Some y" by simp
    from 1(1)[OF this] c(2,3) e(2) show False by simp
  qed
qed

lemma MoveToNest_outcoming_stuck:
  assumes "MoveToNest_outcoming s edge = Some y"
  shows "\<not> (linked s \<and> (\<exists>e. edge = Some e \<and> e < length (edges s)))"
  using assms
proof (induct rule: MoveToNest_outcoming.raw_induct[rotated 1, consumes 1, case_names 1])
  case (1 loop s edge y)
  show ?case
  proof
    assume "linked s \<and> (\<exists>e. edge = Some e \<and> e < length (edges s))"
    then obtain e where li: "linked s" and e: "edge = Some e" "e < length (edges s)" by blast
    from linkedD(5)[OF li e(2)] have ne: "nest_Edge (edges s ! e) \<noteq> None"
      by (auto simp: edge_ok_def edge_nest_ok_def)
    from calcNestAndMoveToIt_linked[OF li e(2)] obtain s' where
      c: "calcNestAndMoveToIt s e = Some (Inr s')" "linked s'" "length (edges s') = length (edges s)"
      by blast
    from 1(2) e ne c(1) have "loop s' (Some e) = Some y" by simp
    from 1(1)[OF this] c(2,3) e(2) show False by simp
  qed
qed

lemma MoveToNest_loops_None:
  "MoveToNest_incoming s None = Some (Inr s)" "MoveToNest_outcoming s None = Some (Inr s)"
  by (subst MoveToNest_incoming.simps, simp) (subst MoveToNest_outcoming.simps, simp)

text \<open>
  So \<^verbatim>\<open>MoveToNest\<close>, called in a reachable state on a node and a nest of the same graph,
  returns exactly when the node has no edge at all; otherwise it runs forever.
\<close>

lemma MoveToNest_behaviour:
  assumes re: "reachable s" and n: "n < length (nodes s)" and r: "r < length (nests s)"
    and nt: "nestTree_Nest (nests s ! r) = Some nt" and bg: "baseGraph (nestTrees s ! nt) = graph_Node (nodes s ! n)"
  shows "MoveToNest s n r =
          (if firstIncomingEdge (nodes s ! n) = None \<and> firstOutcomingEdge (nodes s ! n) = None
           then Some (Inr (projr (MoveToNest_relink s n r), None)) else None)"
proof -
  from reachable_consistent[OF re] have li: "linked s" by (rule consistentD)
  from MoveToNest_relink_returns[OF li n r nt bg] obtain s1 where
    s1: "MoveToNest_relink s n r = Inr s1" "linked s1"
      "same_links (upd_node n (\<lambda>x. x\<lparr>nest_Node := Some r\<rparr>) s) s1"
    by blast
  from same_links_fields(25,26)[OF s1(3), of n] have
    fi: "firstIncomingEdge (nodes s1 ! n) = firstIncomingEdge (nodes s ! n)"
    and fo: "firstOutcomingEdge (nodes s1 ! n) = firstOutcomingEdge (nodes s ! n)"
    by (simp_all add: nth_list_update_total)
  have n1: "n < length (nodes s1)" using same_links_fields(4)[OF s1(3)] n by simp
  from linkedD(4)[OF s1(2) n1] have
    live: "live_opt (firstIncomingEdge (nodes s1 ! n)) (edges s1)"
      "live_opt (firstOutcomingEdge (nodes s1 ! n)) (edges s1)"
    by (auto simp: node_ok_def)
  show ?thesis
  proof (cases "firstIncomingEdge (nodes s ! n)")
    case (Some e)
    with fi live have "linked s1 \<and> (\<exists>e'. firstIncomingEdge (nodes s1 ! n) = Some e' \<and> e' < length (edges s1))"
      using s1(2) by (simp add: live_opt_def)
    with MoveToNest_incoming_stuck have "MoveToNest_incoming s1 (firstIncomingEdge (nodes s1 ! n)) = None"
      by (cases "MoveToNest_incoming s1 (firstIncomingEdge (nodes s1 ! n))") blast+
    with Some nt bg s1(1) show ?thesis by (simp add: MoveToNest_def)
  next
    case None
    show ?thesis
    proof (cases "firstOutcomingEdge (nodes s ! n)")
      case (Some e)
      with fo live have "linked s1 \<and> (\<exists>e'. firstOutcomingEdge (nodes s1 ! n) = Some e' \<and> e' < length (edges s1))"
        using s1(2) by (simp add: live_opt_def)
      with MoveToNest_outcoming_stuck have "MoveToNest_outcoming s1 (firstOutcomingEdge (nodes s1 ! n)) = None"
        by (cases "MoveToNest_outcoming s1 (firstOutcomingEdge (nodes s1 ! n))") blast+
      with Some None fi nt bg s1(1) show ?thesis
        by (simp add: MoveToNest_def MoveToNest_loops_None)
    next
      case no: None
      with None fi fo nt bg s1(1) show ?thesis
        by (simp add: MoveToNest_def MoveToNest_loops_None)
    qed
  qed
qed

text \<open>
  Claim C2 (not met by the code). \<^verbatim>\<open>MoveToNest\<close> is to run to completion for every node
  and every nest of the same graph. Node 1 of the scenario has one incoming edge; moving it
  to nest 1 of its own graph never returns.
\<close>

theorem MoveToNest_does_not_return:
  "firstIncomingEdge (nodes demo_edge ! 1) = Some 0 \<and>
   graph_Node (nodes demo_edge ! 1) = Some 0 \<and>
   nestTree_Nest (nests demo_edge ! 1) = Some 0 \<and> baseGraph (nestTrees demo_edge ! 0) = Some 0 \<and>
   MoveToNest demo_edge 1 1 = None"
proof -
  have ev: "1 < length (nodes demo_edge)" "1 < length (nests demo_edge)"
    "nestTree_Nest (nests demo_edge ! 1) = Some 0"
    "baseGraph (nestTrees demo_edge ! 0) = graph_Node (nodes demo_edge ! 1)"
    "firstIncomingEdge (nodes demo_edge ! 1) = Some 0"
    "graph_Node (nodes demo_edge ! 1) = Some 0"
    by code_simp+
  from MoveToNest_behaviour[OF reachable_demo_edge ev(1-4)] ev(5)
  have "MoveToNest demo_edge 1 1 = None" by simp
  with ev show ?thesis by simp
qed

lemma same_links_nest_Edge:
  assumes "same_links s s'"
  shows "map nest_Edge (edges s') = map nest_Edge (edges s)"
  using same_links_fields(5,30)[OF assms] by (simp add: list_eq_iff_nth_eq)

lemma same_links_set_same_nest_Node:
  "nest_Node (nodes s ! n) = Some r \<Longrightarrow> same_links s (upd_node n (\<lambda>x. x\<lparr>nest_Node := Some r\<rparr>) s)"
  by (rule same_links_upd_node) (simp add: node_core_def)

lemma same_links_set_same_nest_Edge:
  "nest_Edge (edges s ! e) = Some c \<Longrightarrow> same_links s (upd_edge e (\<lambda>x. x\<lparr>nest_Edge := Some c\<rparr>) s)"
  by (rule same_links_upd_edge) (simp add: edge_core_def)

text \<open>Recomputing the nest of an edge in a consistent heap finds the nest the edge has.\<close>

lemma calcNestAndMoveToIt_consistent:
  assumes co: "consistent s" and e: "e < length (edges s)"
  shows "\<exists>s'. calcNestAndMoveToIt s e = Some (Inr s') \<and> same_links s s'"
proof -
  note fr = consistentD(1)[OF co]
  from consistentD(3)[OF co e] obtain g a b where
    K: "graph_Edge (edges s ! e) = Some g" "g < length (graphs s)"
      "srcNode (edges s ! e) = Some a" "a < length (nodes s)"
      "dstNode (edges s ! e) = Some b" "b < length (nodes s)"
      "graph_Node (nodes s ! a) = Some g" "graph_Node (nodes s ! b) = Some g"
    and old: "edge_nest_ok s e"
    unfolding edge_ok_def edge_ends_ok_def by auto
  from calcNestAndMoveToIt_frame[OF fr e K] old obtain na nb c s' where
    C: "nest_Node (nodes s ! a) = Some na" "nest_Node (nodes s ! b) = Some nb"
      "meet_nest s na nb = Some c"
      "calcNestAndMoveToIt s e = Some (Inr s')"
      "same_links (upd_edge e (\<lambda>x. x\<lparr>nest_Edge := Some c\<rparr>) s) s'"
    by blast
  from consistentD(4)[OF co e] K(3,5) C(1-3) have "nest_Edge (edges s ! e) = Some c"
    by (auto simp: edge_attributed_def)
  from same_links_trans[OF same_links_set_same_nest_Edge[OF this] C(5)] C(4)
  show ?thesis by blast
qed

text \<open>
  What a move of a node to the nest it is in does, in every reachable state: the relinking
  of the node returns and leaves the nest of every edge as it was, and the call as a whole
  returns that state if the node has no edge and does not return if it has one.
\<close>

lemma MoveToNest_to_own_nest_behaviour:
  assumes "reachable s" and "n < length (nodes s)" and "nest_Node (nodes s ! n) = Some r"
  shows "\<exists>s1. MoveToNest_relink s n r = Inr s1 \<and> consistent s1 \<and>
           map nest_Edge (edges s1) = map nest_Edge (edges s) \<and>
           MoveToNest s n r =
             (if firstIncomingEdge (nodes s ! n) = None \<and> firstOutcomingEdge (nodes s ! n) = None
              then Some (Inr (s1, None)) else None)"
proof -
  from reachable_consistent[OF assms(1)] have co: "consistent s" .
  note fr = consistentD(1)[OF co] and li = consistentD(2)[OF co]
  from frame_okD(4)[OF fr assms(2)] assms(3) obtain g where
    D: "graph_Node (nodes s ! n) = Some g" "g < length (graphs s)" "r < length (nests s)"
      "nestTree_Nest (nests s ! r) = nestTree_Graph (graphs s ! g)"
    by (auto simp: node_ok_def)
  from frame_okD(1)[OF fr D(2)] D(1,4) obtain nt where
    G: "nestTree_Nest (nests s ! r) = Some nt" "baseGraph (nestTrees s ! nt) = graph_Node (nodes s ! n)"
    by (auto simp: graph_ok_def)
  from MoveToNest_relink_returns[OF li assms(2) D(3) G] obtain s1 where
    s1: "MoveToNest_relink s n r = Inr s1"
      "same_links (upd_node n (\<lambda>x. x\<lparr>nest_Node := Some r\<rparr>) s) s1"
    by blast
  have l: "same_links s s1"
    by (rule same_links_trans[OF same_links_set_same_nest_Node[OF assms(3)] s1(2)])
  have "consistent s1" using same_links_consistent[OF l] co by simp
  moreover have "map nest_Edge (edges s1) = map nest_Edge (edges s)"
    by (rule same_links_nest_Edge[OF l])
  moreover have "MoveToNest s n r =
      (if firstIncomingEdge (nodes s ! n) = None \<and> firstOutcomingEdge (nodes s ! n) = None
       then Some (Inr (s1, None)) else None)"
    using MoveToNest_behaviour[OF assms(1,2) D(3) G] s1(1) by simp
  ultimately show ?thesis using s1(1) by blast
qed

text \<open>
  Claim C3 (not met by the code). Moving a node to the nest it is in is to leave the nest
  of every edge as it was. Node 0 of the scenario is in nest 1 and has the outgoing edge 0,
  whose nest is the root; moving node 0 to nest 1 never returns, so the move is never done.
\<close>

theorem MoveToNest_to_own_nest_does_not_return:
  "nest_Node (nodes demo_edge ! 0) = Some 1 \<and>
   firstOutcomingEdge (nodes demo_edge ! 0) = Some 0 \<and>
   srcNode (edges demo_edge ! 0) = Some 0 \<and> dstNode (edges demo_edge ! 0) = Some 1 \<and>
   map nest_Edge (edges demo_edge) = [Some 0] \<and>
   MoveToNest demo_edge 0 1 = None"
proof -
  have ev: "0 < length (nodes demo_edge)" "nest_Node (nodes demo_edge ! 0) = Some 1"
    "firstOutcomingEdge (nodes demo_edge ! 0) = Some 0"
    "srcNode (edges demo_edge ! 0) = Some 0" "dstNode (edges demo_edge ! 0) = Some 1"
    "map nest_Edge (edges demo_edge) = [Some 0]"
    by code_simp+
  from MoveToNest_to_own_nest_behaviour[OF reachable_demo_edge ev(1,2)] ev(3)
  have "MoveToNest demo_edge 0 1 = None" by auto
  with ev show ?thesis by simp
qed

section \<open>Creating an edge\<close>

text \<open>The attribution of an edge to a nest leaves the adjacency lists alone.\<close>

lemma edge_list_ops_adjacency:
  assumes "removeEdge s n e = Inr s' \<or> addEdge s n e = Inr s'"
  shows "nextOutcomingEdge (edges s' ! i) = nextOutcomingEdge (edges s ! i)"
    and "prevOutcomingEdge (edges s' ! i) = prevOutcomingEdge (edges s ! i)"
    and "nextIncomingEdge (edges s' ! i) = nextIncomingEdge (edges s ! i)"
    and "prevIncomingEdge (edges s' ! i) = prevIncomingEdge (edges s ! i)"
  using assms
  by (auto simp: removeEdge_def addEdge_def Let_def nth_list_update_total
        split: option.splits if_splits)

lemma calcNestAndMoveToIt_adjacency:
  assumes "calcNestAndMoveToIt s e = Some (Inr s')"
  shows "nextOutcomingEdge (edges s' ! i) = nextOutcomingEdge (edges s ! i)"
    and "prevOutcomingEdge (edges s' ! i) = prevOutcomingEdge (edges s ! i)"
    and "nextIncomingEdge (edges s' ! i) = nextIncomingEdge (edges s ! i)"
    and "prevIncomingEdge (edges s' ! i) = prevIncomingEdge (edges s ! i)"
proof -
  from assms obtain c s1 where
    *: "(case nest_Edge (edges s ! e) of Some old \<Rightarrow> removeEdge s old e | None \<Rightarrow> Inr s) = Inr s1"
       "addEdge (upd_edge e (\<lambda>x. x\<lparr>nest_Edge := Some c\<rparr>) s1) c e = Inr s'"
    by (auto simp: calcNestAndMoveToIt_def split: option.splits sum.splits)
  have a: "nextOutcomingEdge (edges s1 ! i) = nextOutcomingEdge (edges s ! i) \<and>
     prevOutcomingEdge (edges s1 ! i) = prevOutcomingEdge (edges s ! i) \<and>
     nextIncomingEdge (edges s1 ! i) = nextIncomingEdge (edges s ! i) \<and>
     prevIncomingEdge (edges s1 ! i) = prevIncomingEdge (edges s ! i)" for i
  proof (cases "nest_Edge (edges s ! e)")
    case None
    with *(1) show ?thesis by simp
  next
    case (Some old)
    with *(1) have "removeEdge s old e = Inr s1" by simp
    then show ?thesis using edge_list_ops_adjacency[of s old e s1 i] by simp
  qed
  note b = edge_list_ops_adjacency[OF disjI2, OF *(2), of i]
  show "nextOutcomingEdge (edges s' ! i) = nextOutcomingEdge (edges s ! i)"
    and "prevOutcomingEdge (edges s' ! i) = prevOutcomingEdge (edges s ! i)"
    and "nextIncomingEdge (edges s' ! i) = nextIncomingEdge (edges s ! i)"
    and "prevIncomingEdge (edges s' ! i) = prevIncomingEdge (edges s ! i)"
    using a[of i] a[of e] by (auto simp: b nth_list_update_total)
qed

lemma NewEdge_link_adjacency:
  assumes "a < length (nodes s)" and "b < length (nodes s)"
    and "live_opt (firstOutcomingEdge (nodes s ! a)) (edges s)"
    and "live_opt (firstIncomingEdge (nodes s ! b)) (edges s)"
  shows "nextOutcomingEdge (edges (NewEdge_link s g a b) ! length (edges s)) = firstOutcomingEdge (nodes s ! a)"
    and "prevOutcomingEdge (edges (NewEdge_link s g a b) ! length (edges s)) = None"
    and "nextIncomingEdge (edges (NewEdge_link s g a b) ! length (edges s)) = firstIncomingEdge (nodes s ! b)"
    and "prevIncomingEdge (edges (NewEdge_link s g a b) ! length (edges s)) = None"
    and "firstOutcomingEdge (nodes s ! a) = Some f \<Longrightarrow>
           prevOutcomingEdge (edges (NewEdge_link s g a b) ! f) = Some (length (edges s))"
    and "firstIncomingEdge (nodes s ! b) = Some f' \<Longrightarrow>
           prevIncomingEdge (edges (NewEdge_link s g a b) ! f') = Some (length (edges s))"
  using assms
  by (auto simp: NewEdge_link_def Let_def nth_list_update_total nth_append live_opt_def
        split: option.splits)

lemma NewEdge_head_inserted:
  assumes co: "consistent s" and g: "g < length (graphs s)"
    and a: "a < length (nodes s)" and b: "b < length (nodes s)"
    and ga: "graph_Node (nodes s ! a) = Some g" and gb: "graph_Node (nodes s ! b) = Some g"
  shows "\<exists>s'. NewEdge s g (Some a) (Some b) = Some (Inr (s', Some (length (edges s)), None)) \<and>
           edge_head_inserted s s' a b (length (edges s)) \<and>
           nest_Edge (edges s' ! length (edges s)) \<noteq> None"
proof -
  let ?e = "length (edges s)"
  let ?s5 = "NewEdge_link s g a b"
  note fr = consistentD(1)[OF co]
  from NewEdge_success[OF co g a b ga gb] obtain s' c where
    S: "NewEdge s g (Some a) (Some b) = Some (Inr (s', Some ?e, None))"
      "same_links (upd_edge ?e (\<lambda>x. x\<lparr>nest_Edge := Some c\<rparr>) ?s5) s'"
    by blast
  from S(1) ga gb obtain s6 where
    s6: "calcNestAndMoveToIt ?s5 ?e = Some (Inr s6)"
      "s' = upd_graph g (\<lambda>G. G\<lparr>edgeCount := edgeCount G + 1\<rparr>) s6"
    by (auto simp: NewEdge_def Let_def split: option.splits sum.splits)
  note L = same_links_fields[OF S(2)]
  note F = NewEdge_link_fields
  from frame_okD(4)[OF fr a] frame_okD(4)[OF fr b] have
    live: "live_opt (firstOutcomingEdge (nodes s ! a)) (edges s)"
      "live_opt (firstIncomingEdge (nodes s ! b)) (edges s)"
    by (auto simp: node_ok_def)
  note A = NewEdge_link_adjacency[OF a b live, where g=g]
  note C = calcNestAndMoveToIt_adjacency[OF s6(1)]
  have adj: "nextOutcomingEdge (edges s' ! i) = nextOutcomingEdge (edges ?s5 ! i)"
    "prevOutcomingEdge (edges s' ! i) = prevOutcomingEdge (edges ?s5 ! i)"
    "nextIncomingEdge (edges s' ! i) = nextIncomingEdge (edges ?s5 ! i)"
    "prevIncomingEdge (edges s' ! i) = prevIncomingEdge (edges ?s5 ! i)" for i
    by (simp_all add: s6(2) C)
  have core: "length (edges s') = Suc ?e"
    "srcNode (edges s' ! ?e) = Some a" "dstNode (edges s' ! ?e) = Some b"
    "nest_Edge (edges s' ! ?e) = Some c"
    "firstOutcomingEdge (nodes s' ! a) = Some ?e" "firstIncomingEdge (nodes s' ! b) = Some ?e"
    "\<And>i. i < ?e \<Longrightarrow> srcNode (edges s' ! i) = srcNode (edges s ! i) \<and>
        dstNode (edges s' ! i) = dstNode (edges s ! i)"
    using F(12)[of s g a b] F(11)[of _ s g a b] a b
    by (simp_all add: L F(1-10) nth_list_update_total edge_core_def)
  have "edge_head_inserted s s' a b ?e"
    unfolding edge_head_inserted_def
    using core A by (simp add: adj)
  with S(1) core(4) show ?thesis by auto
qed

text \<open>
  Claim C4. In every reachable state \<^verbatim>\<open>NewEdge\<close> returns. It returns an error, and the
  state as it was, exactly when an end is \<^verbatim>\<open>nil\<close> or belongs to another graph. Otherwise
  it returns the new edge, head-inserted into the outgoing list of the source and the
  incoming list of the destination and attributed to a nest; the state is reachable again,
  and a second call with the same ends succeeds as well and adds a parallel edge.
\<close>

theorem NewEdge_contract:
  assumes "reachable s" and "g < length (graphs s)"
    and "live_opt src (nodes s)" and "live_opt dst (nodes s)"
  shows "if src \<noteq> None \<and> dst \<noteq> None \<and> graph_Node (nodes s ! the src) = Some g \<and>
            graph_Node (nodes s ! the dst) = Some g
         then \<exists>s' s''. NewEdge s g src dst = Some (Inr (s', Some (length (edges s)), None)) \<and>
                edge_head_inserted s s' (the src) (the dst) (length (edges s)) \<and>
                nest_Edge (edges s' ! length (edges s)) \<noteq> None \<and> reachable s' \<and>
                NewEdge s' g src dst = Some (Inr (s'', Some (Suc (length (edges s))), None)) \<and>
                edge_head_inserted s' s'' (the src) (the dst) (Suc (length (edges s)))
         else \<exists>err. NewEdge s g src dst = Some (Inr (s, None, Some err))"
proof (cases "src \<noteq> None \<and> dst \<noteq> None \<and> graph_Node (nodes s ! the src) = Some g \<and>
            graph_Node (nodes s ! the dst) = Some g")
  case False
  then have "\<exists>err. NewEdge s g src dst = Some (Inr (s, None, Some err))"
    by (auto simp: NewEdge_def split: option.splits)
  then show ?thesis unfolding if_not_P[OF False] .
next
  case True
  then obtain a b where ab: "src = Some a" "dst = Some b"
    "graph_Node (nodes s ! a) = Some g" "graph_Node (nodes s ! b) = Some g"
    by auto
  with assms(3,4) have a: "a < length (nodes s)" and b: "b < length (nodes s)"
    by (simp_all add: live_opt_def)
  from NewEdge_head_inserted[OF reachable_consistent[OF assms(1)] assms(2) a b ab(3,4)]
  obtain s' where
    1: "NewEdge s g (Some a) (Some b) = Some (Inr (s', Some (length (edges s)), None))"
      "edge_head_inserted s s' a b (length (edges s))"
      "nest_Edge (edges s' ! length (edges s)) \<noteq> None"
    by blast
  have re': "reachable s'"
    using r_NewEdge[OF assms(1,2), of src dst s' "Some (length (edges s))" None] assms(3,4) 1(1) ab(1,2)
    by simp
  from NewEdge_success[OF reachable_consistent[OF assms(1)] assms(2) a b ab(3,4)] 1(1)
  obtain c where l: "same_links (upd_edge (length (edges s)) (\<lambda>x. x\<lparr>nest_Edge := Some c\<rparr>) (NewEdge_link s g a b)) s'"
    by auto
  note L = same_links_fields[OF l]
  have len: "length (graphs s') = length (graphs s)" "length (nodes s') = length (nodes s)"
    "graph_Node (nodes s' ! a) = Some g" "graph_Node (nodes s' ! b) = Some g"
    "length (edges s') = Suc (length (edges s))"
    using ab(3,4) by (simp_all add: L NewEdge_link_fields)
  from NewEdge_head_inserted[OF reachable_consistent[OF re'], of g a b] len assms(2) a b
  obtain s'' where
    2: "NewEdge s' g (Some a) (Some b) = Some (Inr (s'', Some (Suc (length (edges s))), None))"
      "edge_head_inserted s' s'' a b (Suc (length (edges s)))"
    by auto
  from 1 2 re' ab(1,2) show ?thesis unfolding if_P[OF True] by auto
qed

theorem NewEdge_contract_witness:
  "reachable demo_edge \<and> 0 < length (graphs demo_edge) \<and>
   live_opt (Some 0) (nodes demo_edge) \<and> live_opt (Some 1) (nodes demo_edge) \<and>
   NewEdge demo_edge 0 (Some 0) (Some 1) = Some (Inr (demo_parallel, Some 1, None)) \<and>
   edge_head_inserted demo_edge demo_parallel 0 1 1 \<and>
   firstOutcomingEdge (nodes demo_edge ! 0) = Some 0 \<and>
   nextOutcomingEdge (edges demo_parallel ! 1) = Some 0 \<and>
   prevOutcomingEdge (edges demo_parallel ! 0) = Some 1 \<and>
   nest_Edge (edges demo_parallel ! 1) = Some 0 \<and>
   NewEdge demo_edge 0 None (Some 1) = Some (Inr (demo_edge, None, Some SrcNodeNil))"
proof -
  have ev: "0 < length (graphs demo_edge)" "live_opt (Some 0) (nodes demo_edge)"
    "live_opt (Some 1) (nodes demo_edge)"
    "NewEdge demo_edge 0 (Some 0) (Some 1) = Some (Inr (demo_parallel, Some 1, None))"
    "graph_Node (nodes demo_edge ! 0) = Some 0" "graph_Node (nodes demo_edge ! 1) = Some 0"
    "length (edges demo_edge) = 1"
    "firstOutcomingEdge (nodes demo_edge ! 0) = Some 0"
    "nextOutcomingEdge (edges demo_parallel ! 1) = Some 0"
    "prevOutcomingEdge (edges demo_parallel ! 0) = Some 1"
    "nest_Edge (edges demo_parallel ! 1) = Some 0"
    "NewEdge demo_edge 0 None (Some 1) = Some (Inr (demo_edge, None, Some SrcNodeNil))"
    by code_simp+
  from NewEdge_contract[OF reachable_demo_edge ev(1-3)] ev(4-7)
  have "edge_head_inserted demo_edge demo_parallel 0 1 1" by auto
  with reachable_demo_edge ev show ?thesis by simp
qed

section \<open>Attribute values\<close>

text \<open>
  Setting and reading back, on the elements that own an attribute array of the size of
  their pool: graphs, nodes, and the nests other than a root.
\<close>

lemma Graph_set_get:
  assumes "reachable s" and "g < length (graphs s)"
    and "isValid a" and "graph_Attr a = Some g"
    and "0 \<le> attrNum a" and "attrNum a < GraphStrAttrNum (attrSpec (graphs s ! g))"
  shows "\<exists>s'. Graph_SetStrAttrVal s g a v = Inr (s', None) \<and>
           Graph_GetStrAttrVal s' g a = Inr (v, None) \<and> Graph_IsStrAttrSet s' g a = Inr (True, None)"
proof -
  from reachable_consistent[OF assms(1)] have fr: "frame_ok s" by (rule consistentD)
  from frame_okD(1)[OF fr assms(2)] assms(5,6) have "in_range (attrNum a) (strAttrs_Graph (graphs s ! g))"
    by (auto simp: graph_ok_def in_range_def)
  moreover from this have "nat (attrNum a) < length (strAttrs_Graph (graphs s ! g))"
    by (auto simp: in_range_def)
  ultimately show ?thesis using assms(2-4)
    by (simp add: Graph_SetStrAttrVal_def Graph_GetStrAttrVal_def Graph_IsStrAttrSet_def Let_def
          in_range_def nth_list_update_total)
qed

lemma Node_set_get:
  assumes "reachable s" and "n < length (nodes s)" and "graph_Node (nodes s ! n) = Some g"
    and "isValid a" and "graph_Attr a = Some g"
    and "0 \<le> attrNum a" and "attrNum a < NodeStrAttrNum (attrSpec (graphs s ! g))"
  shows "\<exists>s'. Node_SetStrAttrVal s n a v = Inr (s', None) \<and>
           Node_GetStrAttrVal s' n a = Inr (v, None) \<and> Node_IsStrAttrSet s' n a = Inr (True, None)"
proof -
  from reachable_consistent[OF assms(1)] have fr: "frame_ok s" by (rule consistentD)
  from frame_okD(4)[OF fr assms(2)] assms(3,6,7) have "in_range (attrNum a) (strAttrs_Node (nodes s ! n))"
    by (auto simp: node_ok_def in_range_def)
  moreover from this have "nat (attrNum a) < length (strAttrs_Node (nodes s ! n))"
    by (auto simp: in_range_def)
  ultimately show ?thesis using assms(2-5)
    by (simp add: Node_SetStrAttrVal_def Node_GetStrAttrVal_def Node_IsStrAttrSet_def Let_def
          in_range_def nth_list_update_total)
qed

lemma Nest_set_get:
  assumes "reachable s" and "r < length (nests s)" and "nestTree_Nest (nests s ! r) = Some nt"
    and "rootNest (nestTrees s ! nt) \<noteq> Some r" and "baseGraph (nestTrees s ! nt) = Some g"
    and "is_valid a" and "nestTree_Attr a = Some nt"
    and "0 \<le> attr_num a" and "attr_num a < NestStrAttrNum (attrSpec (graphs s ! g))"
  shows "\<exists>s'. Nest_SetStrAttrVal s r a v = Inr (s', None) \<and>
           Nest_GetStrAttrVal s' r a = Inr (v, None) \<and> Nest_IsStrAttrSet s' r a = Inr (True, None)"
proof -
  from reachable_consistent[OF assms(1)] have fr: "frame_ok s" by (rule consistentD)
  from frame_okD(3)[OF fr assms(2)] assms(3-5,8,9) have "in_range (attr_num a) (strAttrs_Nest (nests s ! r))"
    by (auto simp: nest_ok_def in_range_def)
  moreover from this have "nat (attr_num a) < length (strAttrs_Nest (nests s ! r))"
    by (auto simp: in_range_def)
  ultimately show ?thesis using assms(2,3,6,7)
    by (simp add: Nest_SetStrAttrVal_def Nest_GetStrAttrVal_def Nest_IsStrAttrSet_def Let_def
          in_range_def nth_list_update_total)
qed

text \<open>
  The root nest has no attribute array: with a valid handle of its tree, setting a value
  on it panics, and so does the release of the handle, whose sweep starts at the root.
\<close>

lemma root_nest_attr_panics:
  assumes "reachable s" and "nt < length (nestTrees s)" and "is_valid a" and "nestTree_Attr a = Some nt"
  shows "\<exists>root. rootNest (nestTrees s ! nt) = Some root \<and>
           Nest_SetStrAttrVal s root a v = Inl IndexOutOfRange \<and>
           Nest_RemoveStrAttr s root a = Inl IndexOutOfRange \<and>
           ReleaseNestStrAttr s nt a = Some (Inl IndexOutOfRange)"
proof -
  from reachable_consistent[OF assms(1)] have fr: "frame_ok s" by (rule consistentD)
  from frame_okD(2)[OF fr assms(2)] obtain root where
    T: "rootNest (nestTrees s ! nt) = Some root" "nestTree_Nest (nests s ! root) = Some nt"
      "length (strAttrs_Nest (nests s ! root)) = 0"
    unfolding tree_ok_def by blast
  have set: "Nest_SetStrAttrVal s root a v = Inl IndexOutOfRange"
    using T assms(3,4) by (simp add: Nest_SetStrAttrVal_def in_range_def)
  have rm: "Nest_RemoveStrAttr s root a = Inl IndexOutOfRange"
    using T by (simp add: Nest_RemoveStrAttr_def in_range_def)
  have "ReleaseNestStrAttr_sweep s a (Some root) = Some (Inl IndexOutOfRange)"
    using rm by (subst ReleaseNestStrAttr_sweep.simps) simp
  then have "ReleaseNestStrAttr s nt a = Some (Inl IndexOutOfRange)"
    using T(1) assms(3,4) by (simp add: ReleaseNestStrAttr_def)
  with T(1) set rm show ?thesis by blast
qed

text \<open>
  Claim C7 (not met by the code). A value set on an element is to read back, and after the
  release of the slot, which sweeps the value off every element, a newly allocated handle is
  not to see it. For nests: with the handle of the freshly allocated slot 0, setting the
  value on the root nest panics; on nest 1 it is set and reads back; the release of the
  handle then panics at the root, before anything is swept or the slot is freed, so the
  value stays on nest 1.
\<close>

theorem nest_attribute_release_panics:
  "NewNestStrAttr demo_nest 0 = (fst (NewNestStrAttr demo_nest 0), nest_attr, None) \<and>
   rootNest (nestTrees demo_nest ! 0) = Some 0 \<and>
   Nest_SetStrAttrVal (fst (NewNestStrAttr demo_nest 0)) 0 nest_attr ''x'' = Inl IndexOutOfRange \<and>
   Nest_SetStrAttrVal (fst (NewNestStrAttr demo_nest 0)) 1 nest_attr ''x'' = Inr (demo_nest_attr, None) \<and>
   Nest_GetStrAttrVal demo_nest_attr 1 nest_attr = Inr (''x'', None) \<and>
   ReleaseNestStrAttr demo_nest_attr 0 nest_attr = Some (Inl IndexOutOfRange)"
  by code_simp

end
